theory Spec2Isabelle
  imports Complex_Main "HOL-Library.Sublist"
begin

section \<open>Slug extractor (util.js)\<close>

text \<open>
  JavaScript strings are modelled as \<open>string\<close> (a list of characters).  The three string
  methods the source uses are modelled after their ECMAScript definitions:
  \<^item> \<open>indexOf_js s sep\<close> is the position of the first occurrence of \<open>sep\<close> in \<open>s\<close>
    (\<open>None\<close> for the \<open>-1\<close> of JavaScript);
  \<^item> \<open>includes_js s sep\<close> is \<open>s.includes(sep)\<close>;
  \<^item> \<open>split_js s sep\<close> is \<open>s.split(sep)\<close>: it cuts \<open>s\<close> at the occurrences of
    \<open>sep\<close> found from left to right, each search starting after the previous occurrence.
\<close>

datatype js_error = TypeError

primrec indexOf_js :: "string \<Rightarrow> string \<Rightarrow> nat option" where
  "indexOf_js [] sep = (if sep = [] then Some 0 else None)"
| "indexOf_js (c # cs) sep =
     (if prefix sep (c # cs) then Some 0 else map_option Suc (indexOf_js cs sep))"

definition includes_js :: "string \<Rightarrow> string \<Rightarrow> bool" where
  "includes_js s sep = (indexOf_js s sep \<noteq> None)"

function split_js :: "string \<Rightarrow> string \<Rightarrow> string list" where
  "split_js s sep =
     (if sep = [] then map (\<lambda>c. [c]) s
      else case indexOf_js s sep of
             None \<Rightarrow> [s]
           | Some j \<Rightarrow> take j s # split_js (drop (j + length sep) s) sep)"
  by pat_completeness auto
termination
proof (relation "measure (\<lambda>(s, sep). length s)")
  show "wf (measure (\<lambda>(s, sep). length s))" by simp
next
  fix s sep :: string and j :: nat
  assume sep: "sep \<noteq> []" and found: "indexOf_js s sep = Some j"
  have bound: "indexOf_js t sep = Some k \<Longrightarrow> k + length sep \<le> length t" for t k
  proof (induction t arbitrary: k)
    case Nil
    then show ?case by (simp split: if_splits)
  next
    case (Cons c cs)
    show ?case
    proof (cases "prefix sep (c # cs)")
      case True
      from prefix_length_le [OF True] Cons.prems True show ?thesis by simp
    next
      case False
      with Cons.prems obtain m where "indexOf_js cs sep = Some m" "k = Suc m"
        by auto
      with Cons.IH show ?thesis by fastforce
    qed
  qed
  from bound [OF found] sep have "length s - (j + length sep) < length s"
    by (cases sep) simp_all
  then show "((drop (j + length sep) s, sep), (s, sep)) \<in> measure (\<lambda>(s, sep). length s)"
    by simp
qed

declare split_js.simps [simp del]

text \<open>Reading an array element: \<open>a[i]\<close> is \<open>undefined\<close> (here \<open>None\<close>) out of range.\<close>

definition at_js :: "'a list \<Rightarrow> nat \<Rightarrow> 'a option" where
  "at_js xs i = (if i < length xs then Some (xs ! i) else None)"

definition domainMarker :: string where
  "domainMarker = ''start.gg/''"

definition overviewSuffix :: string where
  "overviewSuffix = ''/overview''"

text \<open>
  \<^verbatim>\<open>extractSlug(input)\<close>.  Calling \<open>.split\<close> on \<open>undefined\<close> throws a TypeError, so each
  array read that could be out of range is a branch of the model.
\<close>

definition extractSlug :: "string \<Rightarrow> js_error + string" where
  "extractSlug input =
     (if includes_js input domainMarker then
        (case at_js (split_js input domainMarker) 1 of
           None \<Rightarrow> Inl TypeError
         | Some t \<Rightarrow>
             (case at_js (split_js t overviewSuffix) 0 of
                None \<Rightarrow> Inl TypeError
              | Some u \<Rightarrow> Inr u))
      else Inr input)"

text \<open>
  The slug extractor as the specification words it: when the marker occurs, the text after
  it, with an \<open>/overview\<close> suffix removed if there is one; the input otherwise.
\<close>

definition extractSlug_spec :: "string \<Rightarrow> string" where
  "extractSlug_spec input =
     (case indexOf_js input domainMarker of
        None \<Rightarrow> input
      | Some j \<Rightarrow>
          (let rest = drop (j + length domainMarker) input
           in if suffix overviewSuffix rest
              then take (length rest - length overviewSuffix) rest
              else rest))"


section \<open>Standings client (api.js)\<close>

text \<open>
  Values decoded from JSON, and \<open>undefined\<close> for a property that is not there.  An object
  keeps its members in source order; on a duplicate key the last member wins, as in
  \<^verbatim>\<open>JSON.parse\<close>.
\<close>

datatype json =
    JNull
  | JBool bool
  | JNum real
  | JStr string
  | JArr "json list"
  | JObj "(string \<times> json) list"

datatype jsval = Undefined | Val json

text \<open>
  \<open>member v k\<close> reads the property \<open>k\<close> of a value that is neither \<open>null\<close> nor \<open>undefined\<close>;
  \<open>getProp a k\<close> is the member access \<^verbatim>\<open>a.k\<close>, which throws on \<open>null\<close> and \<open>undefined\<close>;
  \<open>optChain a k\<close> is \<^verbatim>\<open>a?.k\<close>; \<open>nullish a d\<close> is \<^verbatim>\<open>a ?? d\<close>.  The keys read by the source
  (\<open>data\<close>, \<open>event\<close>, \<open>standings\<close>, \<open>nodes\<close>) are no built-in property of a string, number,
  boolean or array, so on those values the access gives \<open>undefined\<close>.
\<close>

fun member :: "json \<Rightarrow> string \<Rightarrow> jsval" where
  "member (JObj kvs) k = (case map_of (rev kvs) k of None \<Rightarrow> Undefined | Some v \<Rightarrow> Val v)"
| "member v k = Undefined"

fun getProp :: "jsval \<Rightarrow> string \<Rightarrow> js_error + jsval" where
  "getProp Undefined k = Inl TypeError"
| "getProp (Val JNull) k = Inl TypeError"
| "getProp (Val v) k = Inr (member v k)"

fun optChain :: "jsval \<Rightarrow> string \<Rightarrow> jsval" where
  "optChain Undefined k = Undefined"
| "optChain (Val JNull) k = Undefined"
| "optChain (Val v) k = member v k"

fun nullish :: "jsval \<Rightarrow> json \<Rightarrow> json" where
  "nullish Undefined d = d"
| "nullish (Val JNull) d = d"
| "nullish (Val v) d = v"

text \<open>The GraphQL document of \<^verbatim>\<open>getTop8\<close>, line by line as in the template literal.\<close>

definition query :: string where
  "query =
     ''query EventStandings($slug: String) {'' @ [CHR 0x0A] @
     ''        event(slug: $slug) {'' @ [CHR 0x0A] @
     ''            standings(query: { perPage: 8, page: 1 }) {'' @ [CHR 0x0A] @
     ''                nodes {'' @ [CHR 0x0A] @
     ''                    placement'' @ [CHR 0x0A] @
     ''                    entrant { name }'' @ [CHR 0x0A] @
     ''                }'' @ [CHR 0x0A] @
     ''            }'' @ [CHR 0x0A] @
     ''        }'' @ [CHR 0x0A] @
     ''    }''"

text \<open>
  One call of \<^verbatim>\<open>fetch\<close>.  The body, which the source writes with \<^verbatim>\<open>JSON.stringify\<close>, is
  kept as the JSON value it encodes.
\<close>

record request =
  req_url :: string
  req_method :: string
  req_headers :: "(string \<times> string) list"
  req_body :: json

text \<open>
  What the network gives back: \<^verbatim>\<open>fetch\<close> rejects (no connection), or it resolves to a
  response with its HTTP status, whose body \<^verbatim>\<open>res.json()\<close> either fails to parse (\<open>None\<close>) or
  parses to a JSON value.  \<^verbatim>\<open>fetch\<close> resolves for every status, 401 and 500 as well as 200;
  \<open>response_ok\<close> is \<^verbatim>\<open>res.ok\<close>.
\<close>

datatype fetch_outcome = Rejected | Responded nat "json option"

definition response_ok :: "nat \<Rightarrow> bool" where
  "response_ok status \<longleftrightarrow> 200 \<le> status \<and> status \<le> 299"

record api_env =
  VITE_STARTGG_KEY :: "string option"
  fetch :: "request \<Rightarrow> fetch_outcome"

datatype api_error =
    Error string
  | FetchRejected
  | JsonParseFailed
  | Thrown js_error

definition top8Request :: "string \<Rightarrow> string \<Rightarrow> request" where
  "top8Request apiKey eventSlug =
     \<lparr> req_url = ''https://api.start.gg/gql/alpha'',
       req_method = ''POST'',
       req_headers = [(''Content-Type'', ''application/json''),
                      (''Authorization'', ''Bearer '' @ apiKey)],
       req_body = JObj [(''query'', JStr query),
                        (''variables'', JObj [(''slug'', JStr eventSlug)])] \<rparr>"

text \<open>
  \<^verbatim>\<open>getTop8(eventUrl)\<close>: the list of requests it sent, and the value it resolves to or the
  error it rejects with.  \<^verbatim>\<open>!apiKey\<close> holds for \<open>undefined\<close> and for the empty string.  The
  source reads neither \<^verbatim>\<open>res.ok\<close> nor \<^verbatim>\<open>res.status\<close>, so the status of the response takes no
  part in the result.
\<close>

definition getTop8 :: "api_env \<Rightarrow> string \<Rightarrow> request list \<times> (api_error + json)" where
  "getTop8 env eventUrl =
     (case extractSlug eventUrl of
        Inl e \<Rightarrow> ([], Inl (Thrown e))
      | Inr eventSlug \<Rightarrow>
          (case VITE_STARTGG_KEY env of
             None \<Rightarrow> ([], Inl (Error ''API key not set (VITE_STARTGG_KEY)''))
           | Some apiKey \<Rightarrow>
               if apiKey = [] then ([], Inl (Error ''API key not set (VITE_STARTGG_KEY)''))
               else
                 (let req = top8Request apiKey eventSlug in
                  case fetch env req of
                    Rejected \<Rightarrow> ([req], Inl FetchRejected)
                  | Responded status None \<Rightarrow> ([req], Inl JsonParseFailed)
                  | Responded status (Some j) \<Rightarrow>
                      (case getProp (Val j) ''data'' of
                         Inl e \<Rightarrow> ([req], Inl (Thrown e))
                       | Inr d \<Rightarrow>
                           ([req],
                            Inr (nullish
                                   (optChain (optChain (optChain d ''event'') ''standings'')
                                      ''nodes'')
                                   (JArr [])))))))"


section \<open>Colour space converter (hslFilter.js)\<close>

text \<open>
  JavaScript numbers are IEEE 754 doubles: every arithmetic operation returns the double
  nearest to the exact result.  The model works on \<open>real\<close> and takes the rounding as a
  parameter \<open>fl\<close>, applied to the exact result of each operation and to each numeric literal
  that is no double itself (\<open>0.299\<close>, \<open>0.587\<close>, \<open>0.114\<close>); integers and \<open>0.5\<close> are doubles.
  With \<open>fl = (\<lambda>x. x)\<close> the functions compute in exact arithmetic.  Comparisons,
  \<^verbatim>\<open>Math.max\<close> and \<^verbatim>\<open>Math.min\<close> are exact on doubles.  \<open>NaN\<close> and the infinities are not
  values of the model: a division is meant with a divisor other than zero, which holds in
  \<open>rgbToHsl\<close> whenever the channels lie between 0 and 255.
\<close>

type_synonym rounding = "real \<Rightarrow> real"

text \<open>\<^verbatim>\<open>Math.round\<close>: the nearest integer, a tie going up.\<close>

definition Math_round :: "real \<Rightarrow> int" where
  "Math_round x = \<lfloor>x + 1 / 2\<rfloor>"

definition rgbToHsl :: "rounding \<Rightarrow> real \<Rightarrow> real \<Rightarrow> real \<Rightarrow> real \<times> real \<times> real" where
  "rgbToHsl fl r0 g0 b0 =
     (let r = fl (r0 / 255);
          g = fl (g0 / 255);
          b = fl (b0 / 255);
          mx = max (max r g) b;
          mn = min (min r g) b;
          l = fl (fl (mx + mn) / 2);
          (h, s) =
            (if mx \<noteq> mn then
               (let d = fl (mx - mn);
                    s = (if l > 0.5 then fl (d / fl (fl (2 - mx) - mn))
                         else fl (d / fl (mx + mn)));
                    h = (if mx = r then
                           fl (fl (fl (fl (g - b) / d) + (if g < b then 6 else 0)) / 6)
                         else if mx = g then
                           fl (fl (fl (fl (b - r) / d) + 2) / 6)
                         else
                           fl (fl (fl (fl (r - g) / d) + 4) / 6))
                in (h, s))
             else (0, 0))
      in (fl (h * 360), fl (s * 100), fl (l * 100)))"

definition hue2rgb :: "rounding \<Rightarrow> real \<Rightarrow> real \<Rightarrow> real \<Rightarrow> real" where
  "hue2rgb fl p q t0 =
     (let t1 = (if t0 < 0 then fl (t0 + 1) else t0);
          t = (if t1 > 1 then fl (t1 - 1) else t1)
      in if t < fl (1 / 6) then fl (p + fl (fl (fl (q - p) * 6) * t))
         else if t < fl (1 / 2) then q
         else if t < fl (2 / 3) then fl (p + fl (fl (fl (q - p) * fl (fl (2 / 3) - t)) * 6))
         else p)"

definition hslToRgb :: "rounding \<Rightarrow> real \<Rightarrow> real \<Rightarrow> real \<Rightarrow> int \<times> int \<times> int" where
  "hslToRgb fl h0 s0 l0 =
     (let h = fl (h0 / 360);
          s = fl (s0 / 100);
          l = fl (l0 / 100);
          (r, g, b) =
            (if s = 0 then (l, l, l)
             else
               (let q = (if l < 0.5 then fl (l * fl (1 + s))
                         else fl (fl (l + s) - fl (l * s)));
                    p = fl (fl (2 * l) - q)
                in (hue2rgb fl p q (fl (h + fl (1 / 3))),
                    hue2rgb fl p q h,
                    hue2rgb fl p q (fl (h - fl (1 / 3))))))
      in (Math_round (fl (r * 255)), Math_round (fl (g * 255)), Math_round (fl (b * 255))))"

text \<open>
  The standard model of double arithmetic: rounding to nearest changes a number by at most
  the unit roundoff \<open>2\<^sup>-\<^sup>5\<^sup>3\<close> of its magnitude.  It holds for every operation of the two
  converters on channels between 0 and 255, where nothing overflows or underflows.  The
  exact arithmetic \<open>\<lambda>x. x\<close> satisfies it too.
\<close>

definition unit_roundoff :: real where
  "unit_roundoff = 1 / 2 ^ 53"

definition std_rounding :: "rounding \<Rightarrow> bool" where
  "std_rounding fl \<longleftrightarrow> (\<forall>x. \<bar>fl x - x\<bar> \<le> unit_roundoff * \<bar>x\<bar>)"

text \<open>
  The interpolation of \<open>hue2rgb\<close> in exact arithmetic, in closed form: \<open>wrap\<close> brings the
  hue offset back into [0, 1] and \<open>tent\<close> is the weight of \<open>q\<close> there.  Both serve the proofs
  only.
\<close>

definition wrap :: "real \<Rightarrow> real" where
  "wrap t = (if t < 0 then t + 1 else if t > 1 then t - 1 else t)"

definition tent :: "real \<Rightarrow> real" where
  "tent t = max 0 (min 1 (min (6 * t) (4 - 6 * t)))"

section \<open>Image filter engine (hslFilter.js)\<close>

text \<open>
  \<^verbatim>\<open>ImageData.data\<close> is a \<^verbatim>\<open>Uint8ClampedArray\<close>: a list of bytes, four per pixel.  A write
  clamps the value to 0..255 (\<open>toUint8Clamp\<close>; the values written here are integers
  already), a write past the end is ignored, as \<open>xs[i := v]\<close> does, and a read past the end
  gives \<open>undefined\<close>.
\<close>

definition toUint8Clamp :: "int \<Rightarrow> nat" where
  "toUint8Clamp v = nat (min 255 (max 0 v))"

text \<open>
  The body of the loop of \<^verbatim>\<open>applyColorize\<close> at index \<open>i < length data\<close>.  When the green or
  the blue byte of the pixel is past the end, \<open>gray\<close> is \<open>NaN\<close>, so is every channel that
  \<open>hslToRgb\<close> returns, and a \<open>NaN\<close> is stored as 0.
\<close>

definition colorizeAt :: "rounding \<Rightarrow> real \<Rightarrow> real \<Rightarrow> nat list \<Rightarrow> nat \<Rightarrow> nat list" where
  "colorizeAt fl hue saturation data i =
     (if i + 2 < length data then
        (let r = real (data ! i);
             g = real (data ! (i + 1));
             b = real (data ! (i + 2));
             a = data ! (i + 3);
             gray = fl (fl (fl (fl 0.299 * r) + fl (fl 0.587 * g)) + fl (fl 0.114 * b));
             (h0, s0, l) = rgbToHsl fl gray gray gray;
             (newR, newG, newB) = hslToRgb fl hue saturation l
         in data[i := toUint8Clamp newR, i + 1 := toUint8Clamp newG,
                 i + 2 := toUint8Clamp newB, i + 3 := a])
      else data[i := 0, i + 1 := 0])"

function applyColorize_from :: "rounding \<Rightarrow> real \<Rightarrow> real \<Rightarrow> nat \<Rightarrow> nat list \<Rightarrow> nat list" where
  "applyColorize_from fl hue saturation i data =
     (if i < length data
      then applyColorize_from fl hue saturation (i + 4) (colorizeAt fl hue saturation data i)
      else data)"
  by pat_completeness auto
termination
proof (relation "measure (\<lambda>(fl, hue, saturation, i, data). length data - i)")
  show "wf (measure (\<lambda>(fl, hue, saturation, i, data). length data - i))" by simp
next
  fix fl :: rounding and hue saturation :: real and i :: nat and data :: "nat list"
  assume "i < length data"
  moreover have "length (colorizeAt fl hue saturation data i) = length data"
    by (simp add: colorizeAt_def Let_def split: prod.splits)
  ultimately show "((fl, hue, saturation, i + 4, colorizeAt fl hue saturation data i),
                    (fl, hue, saturation, i, data))
                   \<in> measure (\<lambda>(fl, hue, saturation, i, data). length data - i)"
    by simp
qed

declare applyColorize_from.simps [simp del]

definition applyColorize :: "rounding \<Rightarrow> nat list \<Rightarrow> real \<Rightarrow> real \<Rightarrow> nat list" where
  "applyColorize fl data hue saturation = applyColorize_from fl hue saturation 0 data"

text \<open>The body of the lightness loop of \<^verbatim>\<open>applyHslFilter\<close>, with the same treatment of \<open>NaN\<close>.\<close>

definition lightnessAt :: "rounding \<Rightarrow> real \<Rightarrow> nat list \<Rightarrow> nat \<Rightarrow> nat list" where
  "lightnessAt fl lightnessAdjust data i =
     (if i + 2 < length data then
        (let r = real (data ! i);
             g = real (data ! (i + 1));
             b = real (data ! (i + 2));
             a = data ! (i + 3);
             (h, s, l0) = rgbToHsl fl r g b;
             l = max 0 (min 100 (fl (l0 + lightnessAdjust)));
             (newR, newG, newB) = hslToRgb fl h s l
         in data[i := toUint8Clamp newR, i + 1 := toUint8Clamp newG,
                 i + 2 := toUint8Clamp newB, i + 3 := a])
      else data[i := 0, i + 1 := 0])"

function lightness_from :: "rounding \<Rightarrow> real \<Rightarrow> nat \<Rightarrow> nat list \<Rightarrow> nat list" where
  "lightness_from fl lightnessAdjust i data =
     (if i < length data
      then lightness_from fl lightnessAdjust (i + 4) (lightnessAt fl lightnessAdjust data i)
      else data)"
  by pat_completeness auto
termination
proof (relation "measure (\<lambda>(fl, lightnessAdjust, i, data). length data - i)")
  show "wf (measure (\<lambda>(fl, lightnessAdjust, i, data). length data - i))" by simp
next
  fix fl :: rounding and lightnessAdjust :: real and i :: nat and data :: "nat list"
  assume "i < length data"
  moreover have "length (lightnessAt fl lightnessAdjust data i) = length data"
    by (simp add: lightnessAt_def Let_def split: prod.splits)
  ultimately show "((fl, lightnessAdjust, i + 4, lightnessAt fl lightnessAdjust data i),
                    (fl, lightnessAdjust, i, data))
                   \<in> measure (\<lambda>(fl, lightnessAdjust, i, data). length data - i)"
    by simp
qed

declare lightness_from.simps [simp del]

text \<open>
  The pixel work of \<^verbatim>\<open>applyHslFilter\<close>, between \<^verbatim>\<open>getImageData\<close> and \<^verbatim>\<open>putImageData\<close>.
\<close>

definition filterPixels :: "rounding \<Rightarrow> nat list \<Rightarrow> real \<Rightarrow> real \<Rightarrow> real \<Rightarrow> nat list" where
  "filterPixels fl data hueShift saturationAdjust lightnessAdjust =
     (let data1 = applyColorize fl data hueShift saturationAdjust
      in if lightnessAdjust \<noteq> 0 then lightness_from fl lightnessAdjust 0 data1 else data1)"

text \<open>
  \<^verbatim>\<open>applyHslFilter\<close> with its collaborators as parameters: the background removal service,
  the file reader and the image decoder (\<open>None\<close> when they fail).  The promise resolves to
  the pixels put back on the canvas, or rejects.
\<close>

datatype filter_error = RemoveBgError string | FilterError string

record 'file filter_env =
  removeBackgroundWithAPI :: "'file \<Rightarrow> string + 'file"
  readAsDataURL :: "'file \<Rightarrow> string option"
  decodeImage :: "string \<Rightarrow> nat list option"

definition applyHslFilter ::
  "rounding \<Rightarrow> 'file filter_env \<Rightarrow> 'file \<Rightarrow> real \<Rightarrow> real \<Rightarrow> real \<Rightarrow> bool \<Rightarrow> filter_error + nat list"
where
  "applyHslFilter fl env imageFile hueShift saturationAdjust lightnessAdjust removeBg =
     (case (if removeBg then removeBackgroundWithAPI env imageFile else Inr imageFile) of
        Inl msg \<Rightarrow> Inl (RemoveBgError msg)
      | Inr fileToProcess \<Rightarrow>
          (case readAsDataURL env fileToProcess of
             None \<Rightarrow> Inl (FilterError ''Failed to read file'')
           | Some url \<Rightarrow>
               (case decodeImage env url of
                  None \<Rightarrow> Inl (FilterError ''Failed to load image'')
                | Some data \<Rightarrow>
                    Inr (filterPixels fl data hueShift saturationAdjust lightnessAdjust))))"


text \<open>
  Collaborators to run the filter with, files being named by strings: the removal service
  answers with a new file, the reader succeeds, and the decoder knows two images, the
  uploaded one (a blue pixel of alpha 255) and the one without background (a red pixel of
  alpha 200).
\<close>

definition sampleFilterEnv :: "string filter_env" where
  "sampleFilterEnv =
     \<lparr> removeBackgroundWithAPI = (\<lambda>file. Inr (file @ ''.nobg'')),
       readAsDataURL = (\<lambda>file. Some (''data:'' @ file)),
       decodeImage = (\<lambda>url. if url = ''data:icon.png.nobg'' then Some [255, 0, 0, 200]
                            else if url = ''data:icon.png'' then Some [0, 0, 255, 255]
                            else None) \<rparr>"

section \<open>Graphic renderer (renderer.js)\<close>

text \<open>
  A \<^verbatim>\<open>RenderEntry\<close> object; \<open>icon\<close> is \<open>None\<close> for \<open>null\<close>.  The type \<open>'img\<close> stands for a
  loaded image element.
\<close>

record 'img renderEntry =
  place :: string
  name :: string
  character :: string
  icon :: "'img option"

text \<open>
  What the renderer reads from the page: the state of the border checkbox, the text
  measurement of a 2D context (by font and text), the device pixel ratio, and the outcome
  of loading an image from a URL (\<open>None\<close> when \<^verbatim>\<open>onerror\<close> fires).  A measured width is
  a double and need not be an integer.
\<close>

record 'img render_env =
  addBorderChecked :: bool
  measureText :: "string \<Rightarrow> string \<Rightarrow> real"
  devicePixelRatio :: real
  loadImage :: "string \<Rightarrow> 'img option"

text \<open>The value passed as \<^verbatim>\<open>entries\<close>: an array, or anything else.\<close>

datatype 'a js_arg = NotArray | Array "'a list"

text \<open>
  The canvas that is built: the values assigned to \<^verbatim>\<open>canvas.width\<close> and
  \<^verbatim>\<open>canvas.height\<close> (the physical buffer) and the logical size written to
  \<^verbatim>\<open>canvas.style\<close> in CSS pixels.  The drawing commands issued on its context are not part
  of the model.
\<close>

record canvas =
  buffer_width :: real
  buffer_height :: real
  style_width :: int
  style_height :: int

text \<open>The content of the \<^verbatim>\<open>graphicArea\<close> element: emptied, a text, or the canvas with its download link.\<close>

datatype graphicArea = AreaEmpty | AreaText string | AreaCanvas canvas string

text \<open>
  The characters that \<^verbatim>\<open>\s\<close> matches and \<^verbatim>\<open>trim\<close> strips (white space and line
  terminators of ECMAScript), among the code units below 256 that a \<open>char\<close> can hold: tab,
  line feed, vertical tab, form feed, carriage return, space and the no-break space.
\<close>

definition isSpace :: "char \<Rightarrow> bool" where
  "isSpace c =
     (c \<in> set [CHR 0x09, CHR 0x0A, CHR 0x0B, CHR 0x0C, CHR 0x0D, CHR 0x20, CHR 0xA0])"

definition cleanedIconBase :: "string \<Rightarrow> string option" where
  "cleanedIconBase nm =
     (if nm = [] then None
      else Some (filter (\<lambda>c. \<not> isSpace c) (filter (\<lambda>c. c \<noteq> CHR ''.'') nm)))"

definition loadCharacterIcon :: "'img render_env \<Rightarrow> string \<Rightarrow> 'img option" where
  "loadCharacterIcon env ch =
     (if ch = [] then None
      else case cleanedIconBase ch of
             None \<Rightarrow> None
           | Some base \<Rightarrow>
               if base = [] then None
               else loadImage env (''../assets/stockicons/'' @ base @ ''HeadSSBM.png''))"

text \<open>Layout constants of \<^verbatim>\<open>generateGraphic\<close>.\<close>

definition leftPadding :: real where "leftPadding = 4"
definition rightPadding :: real where "rightPadding = 4"
definition iconLeftPadding :: real where "iconLeftPadding = 24"
definition iconSize :: real where "iconSize = 60"
definition rowH :: int where "rowH = 70"
definition textFont :: string where "textFont = ''700 44px Roboto, serif''"
definition headerFont :: string where "headerFont = ''700 72px Roboto, serif''"
definition headerBottomPadding :: int where "headerBottomPadding = 24"
definition headerText :: string where "headerText = ''Top 8''"
definition headerHeight :: int where "headerHeight = 72"

definition borderSize :: "bool \<Rightarrow> int" where
  "borderSize addBorder = (if addBorder then 1 else 0)"

definition label :: "'img renderEntry \<Rightarrow> string" where
  "label e = place e @ ''. '' @ name e"

text \<open>The \<^verbatim>\<open>forEach\<close> that keeps the widest label, starting from 0.\<close>

definition maxRowTextWidth :: "'img render_env \<Rightarrow> 'img renderEntry list \<Rightarrow> real" where
  "maxRowTextWidth env entries =
     foldl (\<lambda>m e. let w = measureText env textFont (label e) in if w > m then w else m)
       0 entries"

text \<open>
  The sums of the paddings and a measured width are sums of doubles, taken from left to
  right and rounded one by one (\<open>fl\<close>, as in the colour converter); \<^verbatim>\<open>Math.max\<close> and
  \<^verbatim>\<open>Math.ceil\<close> are exact.  The logical sizes that follow are sums and products of integers
  of a magnitude that doubles hold exactly, and are kept as integers.
\<close>

definition innerWidth :: "rounding \<Rightarrow> 'img render_env \<Rightarrow> 'img renderEntry list \<Rightarrow> int" where
  "innerWidth fl env entries =
     (let headerWidth = measureText env headerFont headerText;
          neededWidthForRows =
            fl (fl (fl (fl (leftPadding + maxRowTextWidth env entries) + iconLeftPadding)
                    + iconSize)
                + rightPadding)
      in \<lceil>max (max neededWidthForRows (fl (fl (leftPadding + headerWidth) + rightPadding)))
              200\<rceil>)"

definition innerHeight :: "'img renderEntry list \<Rightarrow> int" where
  "innerHeight entries = headerHeight + headerBottomPadding + int (length entries) * rowH"

text \<open>
  The result of one call of \<^verbatim>\<open>generateGraphic\<close>: the content of \<^verbatim>\<open>graphicArea\<close>, the
  caller's \<open>entries\<close> as the call leaves them, and the characters whose icon it asked for.
\<close>

record 'img render_result =
  area :: graphicArea
  entries_after :: "'img renderEntry js_arg"
  icon_loads :: "string list"

definition generateGraphic ::
  "rounding \<Rightarrow> 'img render_env \<Rightarrow> 'img renderEntry js_arg \<Rightarrow> 'img render_result"
where
  "generateGraphic fl env arg =
     (case arg of
        NotArray \<Rightarrow>
          \<lparr> area = AreaText ''No entries to generate from.'', entries_after = arg,
            icon_loads = [] \<rparr>
      | Array entries \<Rightarrow>
          if entries = [] then
            \<lparr> area = AreaText ''No entries to generate from.'', entries_after = arg,
              icon_loads = [] \<rparr>
          else
            (let loaded = map (\<lambda>e. e\<lparr>icon := loadCharacterIcon env (character e)\<rparr>) entries;
                 addBorder = addBorderChecked env;
                 neededWidth = innerWidth fl env loaded + borderSize addBorder * 2;
                 height = innerHeight loaded + borderSize addBorder * 2;
                 dpr = (if devicePixelRatio env = 0 then 1 else devicePixelRatio env);
                 cv = \<lparr> buffer_width = fl (real_of_int neededWidth * dpr),
                        buffer_height = fl (real_of_int height * dpr),
                        style_width = neededWidth,
                        style_height = height \<rparr>
             in \<lparr> area = AreaCanvas cv ''top8.png'', entries_after = Array loaded,
                  icon_loads = map character entries \<rparr>))"

text \<open>
  The click handler of the generate button: one \<open>row\<close> per \<^verbatim>\<open>.top8-row\<close> element, with the
  text of its label, the value of its input and the value of its select.
\<close>

record row =
  placeLabel :: string
  nameInput :: string
  charSelect :: string

definition trim :: "string \<Rightarrow> string" where
  "trim s = rev (dropWhile isSpace (rev (dropWhile isSpace s)))"

text \<open>\<^verbatim>\<open>s.replace(".", "")\<close>: the first full stop is removed.\<close>

definition removeFirstDot :: "string \<Rightarrow> string" where
  "removeFirstDot s =
     (case indexOf_js s ''.'' of None \<Rightarrow> s | Some j \<Rightarrow> take j s @ drop (j + 1) s)"

definition entryOfRow :: "row \<Rightarrow> 'img renderEntry" where
  "entryOfRow r =
     \<lparr> place = trim (removeFirstDot (placeLabel r)),
       name = (let n = trim (nameInput r) in if n = [] then ''Unknown'' else n),
       character = trim (charSelect r),
       icon = None \<rparr>"

definition genBtn_click :: "rounding \<Rightarrow> 'img render_env \<Rightarrow> row list \<Rightarrow> graphicArea" where
  "genBtn_click fl env rows =
     (if rows = [] then AreaText ''No rows to generate from.''
      else area (generateGraphic fl env (Array (map entryOfRow rows :: 'img renderEntry list))))"

text \<open>The logical size of the canvas shown in the area, if there is one.\<close>

fun logicalWidth :: "graphicArea \<Rightarrow> int option" where
  "logicalWidth (AreaCanvas cv dl) = Some (style_width cv)"
| "logicalWidth a = None"


text \<open>
  A page state to run the renderer on: no border, a device pixel ratio of 1, a header
  measured at 180, every row label measured at 300.5, and one icon file present.
  The entries are the first two of the test button's data.  Every sum of the layout is a
  double there (304.5, 328.5, 388.5, 392.5; 184, 188), so that no addition rounds and the
  run is that of the exact arithmetic \<open>\<lambda>x. x\<close>.
\<close>

definition sampleMeasureText :: "string \<Rightarrow> string \<Rightarrow> real" where
  "sampleMeasureText font text = (if font = headerFont then 180 else 601 / 2)"

definition sampleLoadImage :: "string \<Rightarrow> nat option" where
  "sampleLoadImage url =
     (if url = ''../assets/stockicons/FoxHeadSSBM.png'' then Some 1 else None)"

definition sampleEnv :: "nat render_env" where
  "sampleEnv =
     \<lparr> addBorderChecked = False, measureText = sampleMeasureText, devicePixelRatio = 1,
       loadImage = sampleLoadImage \<rparr>"

definition sampleEntries :: "nat renderEntry list" where
  "sampleEntries =
     [\<lparr> place = ''1'', name = ''Lucky'', character = ''Fox'', icon = None \<rparr>,
      \<lparr> place = ''2'', name = ''Mango'', character = ''Falco'', icon = None \<rparr>]"





text \<open>
  Four states of the network to run \<^verbatim>\<open>getTop8\<close> in: the service answers with two
  standings nodes, the call is rejected, the key is missing, and the service refuses the
  key with status 401 and a JSON body that tells so.
\<close>

definition sampleNodes :: "json list" where
  "sampleNodes =
     [JObj [(''placement'', JNum 1), (''entrant'', JObj [(''name'', JStr ''Lucky'')])],
      JObj [(''placement'', JNum 2), (''entrant'', JObj [(''name'', JStr ''Mango'')])]]"

definition sampleFetch :: "request \<Rightarrow> fetch_outcome" where
  "sampleFetch req =
     Responded 200 (Some (JObj [(''data'',
       JObj [(''event'', JObj [(''standings'', JObj [(''nodes'', JArr sampleNodes)])])])]))"

definition sampleRejectingFetch :: "request \<Rightarrow> fetch_outcome" where
  "sampleRejectingFetch req = Rejected"

definition sampleApiEnv :: api_env where
  "sampleApiEnv = \<lparr> VITE_STARTGG_KEY = Some ''secret'', fetch = sampleFetch \<rparr>"

definition sampleOfflineEnv :: api_env where
  "sampleOfflineEnv = \<lparr> VITE_STARTGG_KEY = Some ''secret'', fetch = sampleRejectingFetch \<rparr>"

definition sampleNoKeyEnv :: api_env where
  "sampleNoKeyEnv = \<lparr> VITE_STARTGG_KEY = None, fetch = sampleFetch \<rparr>"

definition sampleUnauthorizedFetch :: "request \<Rightarrow> fetch_outcome" where
  "sampleUnauthorizedFetch req =
     Responded 401 (Some (JObj [(''message'', JStr ''Invalid authentication token''),
                                (''success'', JBool False)]))"

definition sampleUnauthorizedEnv :: api_env where
  "sampleUnauthorizedEnv =
     \<lparr> VITE_STARTGG_KEY = Some ''expired'', fetch = sampleUnauthorizedFetch \<rparr>"

section \<open>Properties of the slug extractor\<close>

lemma indexOf_js_None: "indexOf_js s sep = None \<longleftrightarrow> \<not> sublist sep s"
  by (induction s) (auto simp: sublist_Cons_right)

lemma indexOf_js_split:
  "indexOf_js s sep = Some j \<Longrightarrow> s = take j s @ sep @ drop (j + length sep) s"
proof (induction s arbitrary: j)
  case Nil
  then show ?case by (simp split: if_splits)
next
  case (Cons c cs)
  show ?case
  proof (cases "prefix sep (c # cs)")
    case True
    with Cons.prems have "j = 0" by simp
    moreover from True obtain zs where "c # cs = sep @ zs" by (auto simp: prefix_def)
    ultimately show ?thesis by simp
  next
    case False
    with Cons.prems obtain k where k: "indexOf_js cs sep = Some k" "j = Suc k"
      by auto
    from Cons.IH [OF k(1)] k(2) show ?thesis by simp
  qed
qed

lemma indexOf_js_first:
  "indexOf_js s sep = Some j \<Longrightarrow> sep \<noteq> [] \<Longrightarrow> \<not> sublist sep (take j s @ butlast sep)"
proof (induction s arbitrary: j)
  case Nil
  then show ?case by (simp split: if_splits)
next
  case (Cons c cs)
  show ?case
  proof (cases "prefix sep (c # cs)")
    case True
    with Cons.prems have "j = 0" by simp
    moreover have "\<not> sublist sep (butlast sep)"
      using Cons.prems(2) sublist_length_le [of sep "butlast sep"] by (cases sep) auto
    ultimately show ?thesis by simp
  next
    case False
    with Cons.prems obtain k where k: "indexOf_js cs sep = Some k" "j = Suc k"
      by auto
    from indexOf_js_split [OF k(1)] have cs: "cs = take k cs @ sep @ drop (k + length sep) cs" .
    have np: "\<not> prefix sep (c # take k cs @ butlast sep)"
    proof
      assume "prefix sep (c # take k cs @ butlast sep)"
      moreover have "prefix (c # take k cs @ butlast sep) (c # cs)"
      proof -
        have "prefix (take k cs @ butlast sep) (take k cs @ sep @ drop (k + length sep) cs)"
          by (simp add: prefixeq_butlast prefix_order.trans)
        with cs show ?thesis by simp
      qed
      ultimately have "prefix sep (c # cs)" by (rule prefix_order.trans)
      with False show False by simp
    qed
    from Cons.IH [OF k(1) Cons.prems(2)] np k(2) show ?thesis
      by (simp add: sublist_Cons_right)
  qed
qed

lemma not_sublist_appendD1: "\<not> sublist xs (ys @ zs) \<Longrightarrow> \<not> sublist xs ys"
proof
  assume "\<not> sublist xs (ys @ zs)" and "sublist xs ys"
  then obtain ps ss where "ys = ps @ xs @ ss" by (auto simp: sublist_def)
  then have "ys @ zs = ps @ xs @ (ss @ zs)" by simp
  then have "sublist xs (ys @ zs)" unfolding sublist_def by blast
  with \<open>\<not> sublist xs (ys @ zs)\<close> show False by simp
qed

lemma split_js_None: "sep \<noteq> [] \<Longrightarrow> indexOf_js s sep = None \<Longrightarrow> split_js s sep = [s]"
  by (simp add: split_js.simps)

lemma split_js_Some:
  "sep \<noteq> [] \<Longrightarrow> indexOf_js s sep = Some j \<Longrightarrow>
   split_js s sep = take j s # split_js (drop (j + length sep) s) sep"
  by (subst split_js.simps) simp

lemma split_js_first_piece:
  assumes "sep \<noteq> []"
  shows "\<exists>p ps rest. split_js s sep = p # ps \<and> s = p @ rest \<and>
           (rest = [] \<or> prefix sep rest) \<and> \<not> sublist sep p"
proof (cases "indexOf_js s sep")
  case None
  with assms show ?thesis
    by (simp add: split_js_None indexOf_js_None)
next
  case (Some j)
  from indexOf_js_split [OF Some]
  have s: "s = take j s @ sep @ drop (j + length sep) s" .
  from indexOf_js_first [OF Some assms]
  have "\<not> sublist sep (take j s)" by (rule not_sublist_appendD1)
  moreover have "prefix sep (sep @ drop (j + length sep) s)" by simp
  ultimately show ?thesis
    using s split_js_Some [OF assms Some] by blast
qed

lemma marker_nonempty: "domainMarker \<noteq> []" "overviewSuffix \<noteq> []"
  by (simp_all add: domainMarker_def overviewSuffix_def)

lemma extractSlug_no_marker:
  "\<not> sublist domainMarker input \<Longrightarrow> extractSlug input = Inr input"
  by (simp add: extractSlug_def includes_js_def indexOf_js_None)

lemma extractSlug_marker:
  assumes "sublist domainMarker input"
  shows "\<exists>pre out rest. extractSlug input = Inr out \<and>
           input = pre @ domainMarker @ out @ rest \<and>
           \<not> sublist domainMarker (pre @ butlast domainMarker) \<and>
           \<not> sublist domainMarker out \<and> \<not> sublist overviewSuffix out \<and>
           (rest = [] \<or> prefix domainMarker rest \<or> prefix overviewSuffix rest)"
proof -
  from assms obtain j where j: "indexOf_js input domainMarker = Some j"
    using indexOf_js_None [of input domainMarker] by auto
  define r where "r = drop (j + length domainMarker) input"
  from indexOf_js_split [OF j]
  have input: "input = take j input @ domainMarker @ r" by (simp add: r_def)
  from indexOf_js_first [OF j marker_nonempty(1)]
  have first: "\<not> sublist domainMarker (take j input @ butlast domainMarker)" .
  from split_js_first_piece [OF marker_nonempty(1), of r]
  obtain t ps rest1 where t: "split_js r domainMarker = t # ps" "r = t @ rest1"
    "rest1 = [] \<or> prefix domainMarker rest1" "\<not> sublist domainMarker t"
    by blast
  from split_js_first_piece [OF marker_nonempty(2), of t]
  obtain u us rest2 where u: "split_js t overviewSuffix = u # us" "t = u @ rest2"
    "rest2 = [] \<or> prefix overviewSuffix rest2" "\<not> sublist overviewSuffix u"
    by blast
  have "split_js input domainMarker = take j input # t # ps"
    using split_js_Some [OF marker_nonempty(1) j] t(1) by (simp add: r_def)
  then have res: "extractSlug input = Inr u"
    using j u(1) by (simp add: extractSlug_def includes_js_def at_js_def)
  have "input = take j input @ domainMarker @ u @ (rest2 @ rest1)"
    using input t(2) u(2) by simp
  moreover have "\<not> sublist domainMarker u"
    using t(4) u(2) not_sublist_appendD1 by blast
  moreover have "rest2 @ rest1 = [] \<or> prefix domainMarker (rest2 @ rest1)
                 \<or> prefix overviewSuffix (rest2 @ rest1)"
    using t(3) u(3) by (auto simp: prefix_def)
  ultimately show ?thesis using res first u(4) by blast
qed

lemma extractSlug_total: "\<exists>slug. extractSlug input = Inr slug"
proof (cases "sublist domainMarker input")
  case True
  from extractSlug_marker [OF True] show ?thesis by blast
next
  case False
  then show ?thesis by (simp add: extractSlug_no_marker)
qed

text \<open>
  When the marker occurs once, the array of \<^verbatim>\<open>split\<close> has two elements, the text before
  the marker and the text after it, and the second \<^verbatim>\<open>split\<close> keeps of the latter what stands
  before its first \<open>/overview\<close>.
\<close>

lemma prefix_within:
  assumes "prefix sep (xs @ ys)" and "length sep \<le> length xs"
  shows "prefix sep xs"
proof -
  from assms(1) consider "prefix sep xs" | us where "sep = xs @ us" "prefix us ys"
    by (auto simp: prefix_append)
  then show ?thesis
  proof cases
    case 1
    then show ?thesis .
  next
    case 2
    with assms(2) have "us = []" by simp
    with 2 show ?thesis by simp
  qed
qed

lemma indexOf_js_append:
  assumes "sep \<noteq> []" and "\<not> sublist sep (pre @ butlast sep)"
  shows "indexOf_js (pre @ sep @ rest) sep = Some (length pre)"
  using assms(2)
proof (induction pre)
  case Nil
  from assms(1) obtain c cs where "sep = c # cs" by (cases sep) auto
  then show ?case by simp
next
  case (Cons c pre)
  have np: "\<not> prefix sep (c # pre @ sep @ rest)"
  proof
    assume p: "prefix sep (c # pre @ sep @ rest)"
    have "c # pre @ sep @ rest = ((c # pre) @ butlast sep) @ ([last sep] @ rest)"
      using assms(1) by simp
    with p have "prefix sep (((c # pre) @ butlast sep) @ ([last sep] @ rest))" by simp
    moreover have "length sep \<le> length ((c # pre) @ butlast sep)" by simp
    ultimately have "prefix sep ((c # pre) @ butlast sep)" by (rule prefix_within)
    then have "sublist sep ((c # pre) @ butlast sep)" by (rule prefix_imp_sublist)
    with Cons.prems show False by simp
  qed
  from Cons.prems have "\<not> sublist sep (pre @ butlast sep)"
    by (simp add: sublist_Cons_right)
  from Cons.IH [OF this] np show ?case by simp
qed

lemma extractSlug_single_marker:
  assumes "\<not> sublist domainMarker (pre @ butlast domainMarker)"
    and "\<not> sublist domainMarker rest"
  shows "extractSlug (pre @ domainMarker @ rest)
           = Inr (case indexOf_js rest overviewSuffix of None \<Rightarrow> rest | Some k \<Rightarrow> take k rest)"
proof -
  let ?input = "pre @ domainMarker @ rest"
  have j: "indexOf_js ?input domainMarker = Some (length pre)"
    by (rule indexOf_js_append [OF marker_nonempty(1) assms(1)])
  have r: "split_js rest domainMarker = [rest]"
    using assms(2) by (simp add: split_js_None marker_nonempty indexOf_js_None)
  have sp: "split_js ?input domainMarker = [pre, rest]"
    using split_js_Some [OF marker_nonempty(1) j] r by simp
  have piece: "at_js (split_js rest overviewSuffix) 0
                 = Some (case indexOf_js rest overviewSuffix of None \<Rightarrow> rest
                         | Some k \<Rightarrow> take k rest)"
  proof (cases "indexOf_js rest overviewSuffix")
    case None
    then show ?thesis by (simp add: split_js_None marker_nonempty at_js_def)
  next
    case (Some k)
    then show ?thesis by (simp add: split_js_Some marker_nonempty at_js_def)
  qed
  show ?thesis
    using j sp piece by (simp add: extractSlug_def includes_js_def at_js_def)
qed

lemma extractSlug_cut:
  assumes "\<not> sublist domainMarker (pre @ butlast domainMarker)"
    and "\<not> sublist domainMarker (slug @ overviewSuffix @ tail)"
    and "\<not> sublist overviewSuffix (slug @ butlast overviewSuffix)"
  shows "extractSlug (pre @ domainMarker @ slug @ overviewSuffix @ tail) = Inr slug"
  using extractSlug_single_marker [OF assms(1,2)]
    indexOf_js_append [OF marker_nonempty(2) assms(3), of tail]
  by simp

lemma extractSlug_whole:
  assumes "\<not> sublist domainMarker (pre @ butlast domainMarker)"
    and "\<not> sublist domainMarker rest" and "\<not> sublist overviewSuffix rest"
  shows "extractSlug (pre @ domainMarker @ rest) = Inr rest"
proof -
  from assms(3) have "indexOf_js rest overviewSuffix = None" by (simp add: indexOf_js_None)
  with extractSlug_single_marker [OF assms(1,2)] show ?thesis by simp
qed

text \<open>
  On an input that holds the marker a second time, the second element of the array is only
  the text between the first two markers.  The comment of the source (\<^verbatim>\<open>strip the domain\<close>)
  does not ask for that cut.
\<close>

lemma extractSlug_second_marker:
  "extractSlug ''https://start.gg/tournament/foo/event/bar?from=start.gg/home''
     = Inr ''tournament/foo/event/bar?from=''"
  by code_simp

text \<open>
  Claim C8. As stated the claim fails: the code cuts the text after the marker at its
  first \<open>/overview\<close>, wherever that stands, and not only when \<open>/overview\<close> is a suffix.  On a
  link to the overview page that carries a query string, the text after the marker does not
  end with \<open>/overview\<close>, so that the claim keeps it whole, and the code returns the slug.
\<close>

theorem extractSlug_overview_not_suffix_counterexample:
  "extractSlug ''https://start.gg/tournament/foo/event/bar/overview?tab=results''
     = Inr ''tournament/foo/event/bar'' \<and>
   extractSlug_spec ''https://start.gg/tournament/foo/event/bar/overview?tab=results''
     = ''tournament/foo/event/bar/overview?tab=results''"
  by code_simp

text \<open>
  Claim C8. amended.  For every input string: when the marker \<open>start.gg/\<close> does not
  occur, \<open>extractSlug\<close> returns the input unchanged; when the marker occurs once, so that
  the input is \<open>pre @ marker @ rest\<close> with no marker starting in \<open>pre\<close> and none in \<open>rest\<close>,
  \<open>extractSlug\<close> returns \<open>rest\<close> if \<open>/overview\<close> does not occur in it, and otherwise the part
  \<open>slug\<close> of \<open>rest\<close> that stands before its first \<open>/overview\<close>.  The two examples of the
  specification come out as it says.  Inputs with a second marker are left out.
\<close>

theorem extractSlug_behaviour:
  "(\<not> sublist domainMarker input \<longrightarrow> extractSlug input = Inr input)
   \<and> (\<forall>pre rest.
        input = pre @ domainMarker @ rest \<and>
        \<not> sublist domainMarker (pre @ butlast domainMarker) \<and>
        \<not> sublist domainMarker rest \<longrightarrow>
          (\<not> sublist overviewSuffix rest \<longrightarrow> extractSlug input = Inr rest) \<and>
          (\<forall>slug tail.
             rest = slug @ overviewSuffix @ tail \<and>
             \<not> sublist overviewSuffix (slug @ butlast overviewSuffix) \<longrightarrow>
               extractSlug input = Inr slug))
   \<and> extractSlug ''https://start.gg/tournament/foo/event/bar/overview''
        = Inr ''tournament/foo/event/bar''
   \<and> extractSlug ''tournament/foo/event/bar'' = Inr ''tournament/foo/event/bar''"
proof (intro conjI allI impI)
  assume "\<not> sublist domainMarker input"
  then show "extractSlug input = Inr input" by (rule extractSlug_no_marker)
next
  fix pre rest
  assume h: "input = pre @ domainMarker @ rest \<and>
        \<not> sublist domainMarker (pre @ butlast domainMarker) \<and>
        \<not> sublist domainMarker rest"
    and "\<not> sublist overviewSuffix rest"
  then show "extractSlug input = Inr rest" by (simp add: extractSlug_whole)
next
  fix pre rest slug tail
  assume h: "input = pre @ domainMarker @ rest \<and>
        \<not> sublist domainMarker (pre @ butlast domainMarker) \<and>
        \<not> sublist domainMarker rest"
    and c: "rest = slug @ overviewSuffix @ tail \<and>
             \<not> sublist overviewSuffix (slug @ butlast overviewSuffix)"
  from h c have "extractSlug (pre @ domainMarker @ slug @ overviewSuffix @ tail) = Inr slug"
    by (intro extractSlug_cut) simp_all
  with h c show "extractSlug input = Inr slug" by simp
next
  show "extractSlug ''https://start.gg/tournament/foo/event/bar/overview''
        = Inr ''tournament/foo/event/bar''"
    by code_simp
next
  show "extractSlug ''tournament/foo/event/bar'' = Inr ''tournament/foo/event/bar''"
    by code_simp
qed

theorem extractSlug_behaviour_witness:
  "''https://www.start.gg/tournament/foo/event/bar/overview?tab=results''
     = ''https://www.'' @ domainMarker @ ''tournament/foo/event/bar/overview?tab=results'' \<and>
   \<not> sublist domainMarker (''https://www.'' @ butlast domainMarker) \<and>
   \<not> sublist domainMarker ''tournament/foo/event/bar/overview?tab=results'' \<and>
   ''tournament/foo/event/bar/overview?tab=results''
     = ''tournament/foo/event/bar'' @ overviewSuffix @ ''?tab=results'' \<and>
   \<not> sublist overviewSuffix (''tournament/foo/event/bar'' @ butlast overviewSuffix) \<and>
   extractSlug ''https://www.start.gg/tournament/foo/event/bar/overview?tab=results''
     = Inr ''tournament/foo/event/bar'' \<and>
   \<not> sublist domainMarker ''tournament/foo/event/bar'' \<and>
   extractSlug ''tournament/foo/event/bar'' = Inr ''tournament/foo/event/bar''"
proof -
  have a: "''https://www.start.gg/tournament/foo/event/bar/overview?tab=results''
     = ''https://www.'' @ domainMarker @ ''tournament/foo/event/bar/overview?tab=results''"
    by (simp add: domainMarker_def)
  have b: "\<not> sublist domainMarker (''https://www.'' @ butlast domainMarker)"
    by code_simp
  have c: "\<not> sublist domainMarker ''tournament/foo/event/bar/overview?tab=results''"
    by code_simp
  have d: "''tournament/foo/event/bar/overview?tab=results''
     = ''tournament/foo/event/bar'' @ overviewSuffix @ ''?tab=results''"
    by (simp add: overviewSuffix_def)
  have e: "\<not> sublist overviewSuffix (''tournament/foo/event/bar'' @ butlast overviewSuffix)"
    by code_simp
  have f: "\<not> sublist domainMarker ''tournament/foo/event/bar''"
    by code_simp
  from extractSlug_behaviour
         [of "''https://www.start.gg/tournament/foo/event/bar/overview?tab=results''"]
    extractSlug_behaviour [of "''tournament/foo/event/bar''"] a b c d e f
  show ?thesis by blast
qed

text \<open>
  Claim C10. \<open>extractSlug\<close> is idempotent: it never fails, and applied to its own result
  it returns that result.
\<close>

theorem extractSlug_idempotent: "\<exists>t. extractSlug s = Inr t \<and> extractSlug t = Inr t"
proof (cases "sublist domainMarker s")
  case True
  from extractSlug_marker [OF True] obtain out where
    "extractSlug s = Inr out" "\<not> sublist domainMarker out" by blast
  then show ?thesis by (simp add: extractSlug_no_marker)
next
  case False
  then show ?thesis by (simp add: extractSlug_no_marker)
qed

section \<open>Properties of the standings client\<close>

lemma query_page: "sublist ''standings(query: { perPage: 8, page: 1 })'' query"
  by code_simp


lemma getTop8_with_key:
  assumes "extractSlug eventUrl = Inr slug" and "VITE_STARTGG_KEY env = Some apiKey"
    and "apiKey \<noteq> []"
  shows "getTop8 env eventUrl =
           ([top8Request apiKey slug],
            case fetch env (top8Request apiKey slug) of
              Rejected \<Rightarrow> Inl FetchRejected
            | Responded status None \<Rightarrow> Inl JsonParseFailed
            | Responded status (Some j) \<Rightarrow>
                (case getProp (Val j) ''data'' of
                   Inl e \<Rightarrow> Inl (Thrown e)
                 | Inr d \<Rightarrow>
                     Inr (nullish (optChain (optChain (optChain d ''event'') ''standings'')
                                     ''nodes'') (JArr []))))"
  using assms
  by (simp add: getTop8_def Let_def split: fetch_outcome.splits option.splits sum.splits)

lemma getTop8_requests:
  "fst (getTop8 env eventUrl) = [] \<or>
   (\<exists>apiKey slug. fst (getTop8 env eventUrl) = [top8Request apiKey slug])"
  by (auto simp: getTop8_def Let_def split: fetch_outcome.splits option.splits sum.splits)

lemma top8Request_body: "member (req_body (top8Request apiKey slug)) ''query'' = Val (JStr query)"
  by (simp add: top8Request_def)

lemma getProp_member: "member j k = Val d \<Longrightarrow> getProp (Val j) k = Inr (Val d)"
  by (cases j) simp_all

lemma optChain_member: "member v k = Val w \<Longrightarrow> optChain (Val v) k = Val w"
  by (cases v) simp_all

text \<open>
  The outcomes of \<open>getTop8\<close>.  Without an API key (unset or empty) it fails and sends
  nothing.  With a key it sends exactly one request, for the slug of the event, whose query
  asks for page 1 with 8 nodes per page; it fails when \<^verbatim>\<open>fetch\<close> rejects or the body does not
  parse, and otherwise, whatever the status of the response, it returns the node list of the
  body as it is, or the empty list when the event is \<open>null\<close>.
\<close>

lemma getTop8_outcomes:
  "(VITE_STARTGG_KEY env = None \<or> VITE_STARTGG_KEY env = Some [] \<longrightarrow>
       getTop8 env eventUrl = ([], Inl (Error ''API key not set (VITE_STARTGG_KEY)'')))
   \<and> (\<forall>apiKey. VITE_STARTGG_KEY env = Some apiKey \<and> apiKey \<noteq> [] \<longrightarrow>
        (\<exists>slug req. extractSlug eventUrl = Inr slug \<and> req = top8Request apiKey slug \<and>
           fst (getTop8 env eventUrl) = [req] \<and>
           (fetch env req = Rejected \<longrightarrow> snd (getTop8 env eventUrl) = Inl FetchRejected) \<and>
           (\<forall>status. fetch env req = Responded status None \<longrightarrow>
              snd (getTop8 env eventUrl) = Inl JsonParseFailed) \<and>
           (\<forall>status j d e st ns.
              fetch env req = Responded status (Some j) \<and> member j ''data'' = Val d \<and>
              member d ''event'' = Val e \<and> member e ''standings'' = Val st \<and>
              member st ''nodes'' = Val (JArr ns) \<longrightarrow>
              snd (getTop8 env eventUrl) = Inr (JArr ns)) \<and>
           (\<forall>status j d.
              fetch env req = Responded status (Some j) \<and> member j ''data'' = Val d \<and>
              member d ''event'' = Val JNull \<longrightarrow>
              snd (getTop8 env eventUrl) = Inr (JArr []))))
   \<and> length (fst (getTop8 env eventUrl)) \<le> 1
   \<and> (\<forall>req \<in> set (fst (getTop8 env eventUrl)).
        member (req_body req) ''query'' = Val (JStr query) \<and>
        sublist ''standings(query: { perPage: 8, page: 1 })'' query)"
proof -
  obtain slug where slug: "extractSlug eventUrl = Inr slug"
    using extractSlug_total by blast
  have nokey: "getTop8 env eventUrl = ([], Inl (Error ''API key not set (VITE_STARTGG_KEY)''))"
    if "VITE_STARTGG_KEY env = None \<or> VITE_STARTGG_KEY env = Some []"
    using that slug by (auto simp: getTop8_def)
  have key: "\<exists>slug req. extractSlug eventUrl = Inr slug \<and> req = top8Request apiKey slug \<and>
           fst (getTop8 env eventUrl) = [req] \<and>
           (fetch env req = Rejected \<longrightarrow> snd (getTop8 env eventUrl) = Inl FetchRejected) \<and>
           (\<forall>status. fetch env req = Responded status None \<longrightarrow>
              snd (getTop8 env eventUrl) = Inl JsonParseFailed) \<and>
           (\<forall>status j d e st ns.
              fetch env req = Responded status (Some j) \<and> member j ''data'' = Val d \<and>
              member d ''event'' = Val e \<and> member e ''standings'' = Val st \<and>
              member st ''nodes'' = Val (JArr ns) \<longrightarrow>
              snd (getTop8 env eventUrl) = Inr (JArr ns)) \<and>
           (\<forall>status j d.
              fetch env req = Responded status (Some j) \<and> member j ''data'' = Val d \<and>
              member d ''event'' = Val JNull \<longrightarrow>
              snd (getTop8 env eventUrl) = Inr (JArr []))"
    if k: "VITE_STARTGG_KEY env = Some apiKey" "apiKey \<noteq> []" for apiKey
  proof -
    define req where "req = top8Request apiKey slug"
    note run = getTop8_with_key [OF slug k, folded req_def]
    have one: "fst (getTop8 env eventUrl) = [req]"
      by (simp add: run)
    have rej: "fetch env req = Rejected \<longrightarrow> snd (getTop8 env eventUrl) = Inl FetchRejected"
      by (simp add: run)
    have bad: "\<forall>status. fetch env req = Responded status None \<longrightarrow>
              snd (getTop8 env eventUrl) = Inl JsonParseFailed"
      by (simp add: run)
    have good: "\<forall>status j d e st ns.
              fetch env req = Responded status (Some j) \<and> member j ''data'' = Val d \<and>
              member d ''event'' = Val e \<and> member e ''standings'' = Val st \<and>
              member st ''nodes'' = Val (JArr ns) \<longrightarrow>
              snd (getTop8 env eventUrl) = Inr (JArr ns)"
      by (simp add: run getProp_member optChain_member)
    have none: "\<forall>status j d.
              fetch env req = Responded status (Some j) \<and> member j ''data'' = Val d \<and>
              member d ''event'' = Val JNull \<longrightarrow>
              snd (getTop8 env eventUrl) = Inr (JArr [])"
      by (simp add: run getProp_member optChain_member)
    from slug req_def one rej bad good none show ?thesis
      by (intro exI [of _ slug] exI [of _ req] conjI)
  qed
  have len: "length (fst (getTop8 env eventUrl)) \<le> 1"
    using getTop8_requests [of env eventUrl] by auto
  have body: "member (req_body req) ''query'' = Val (JStr query)"
    if "req \<in> set (fst (getTop8 env eventUrl))" for req
    using that getTop8_requests [of env eventUrl] by (auto simp: top8Request_body)
  from nokey key len body query_page show ?thesis
    by (intro conjI allI impI ballI) simp_all
qed


lemma getTop8_outcomes_sample:
  "VITE_STARTGG_KEY sampleNoKeyEnv = None \<and>
   getTop8 sampleNoKeyEnv ''https://start.gg/tournament/foo/event/bar/overview''
     = ([], Inl (Error ''API key not set (VITE_STARTGG_KEY)'')) \<and>
   VITE_STARTGG_KEY sampleOfflineEnv = Some ''secret'' \<and>
   fetch sampleOfflineEnv (top8Request ''secret'' ''tournament/foo/event/bar'') = Rejected \<and>
   snd (getTop8 sampleOfflineEnv ''https://start.gg/tournament/foo/event/bar/overview'')
     = Inl FetchRejected \<and>
   VITE_STARTGG_KEY sampleApiEnv = Some ''secret'' \<and>
   fst (getTop8 sampleApiEnv ''https://start.gg/tournament/foo/event/bar/overview'')
     = [top8Request ''secret'' ''tournament/foo/event/bar''] \<and>
   snd (getTop8 sampleApiEnv ''https://start.gg/tournament/foo/event/bar/overview'')
     = Inr (JArr sampleNodes)"
proof -
  let ?url = "''https://start.gg/tournament/foo/event/bar/overview''"
  have slug: "extractSlug ?url = Inr ''tournament/foo/event/bar''"
    by code_simp
  have k0: "VITE_STARTGG_KEY sampleNoKeyEnv = None"
    by (simp add: sampleNoKeyEnv_def)
  have k1: "VITE_STARTGG_KEY sampleOfflineEnv = Some ''secret''"
    by (simp add: sampleOfflineEnv_def)
  have k2: "VITE_STARTGG_KEY sampleApiEnv = Some ''secret''"
    by (simp add: sampleApiEnv_def)
  have f1: "fetch sampleOfflineEnv r = Rejected" for r
    by (simp add: sampleOfflineEnv_def sampleRejectingFetch_def)
  have f2: "fetch sampleApiEnv r = Responded 200 (Some (JObj [(''data'',
       JObj [(''event'', JObj [(''standings'', JObj [(''nodes'', JArr sampleNodes)])])])]))" for r
    by (simp add: sampleApiEnv_def sampleFetch_def)
  have a: "getTop8 sampleNoKeyEnv ?url = ([], Inl (Error ''API key not set (VITE_STARTGG_KEY)''))"
    using getTop8_outcomes [of sampleNoKeyEnv ?url] k0 by simp
  have b: "snd (getTop8 sampleOfflineEnv ?url) = Inl FetchRejected"
    using getTop8_outcomes [of sampleOfflineEnv ?url] k1 f1 by auto
  from getTop8_outcomes [of sampleApiEnv ?url] k2 slug
  have c: "fst (getTop8 sampleApiEnv ?url) = [top8Request ''secret'' ''tournament/foo/event/bar'']"
    and d: "\<forall>status j d e st ns.
              fetch sampleApiEnv (top8Request ''secret'' ''tournament/foo/event/bar'')
                = Responded status (Some j) \<and> member j ''data'' = Val d \<and>
              member d ''event'' = Val e \<and> member e ''standings'' = Val st \<and>
              member st ''nodes'' = Val (JArr ns) \<longrightarrow>
              snd (getTop8 sampleApiEnv ?url) = Inr (JArr ns)"
    by auto
  have e: "snd (getTop8 sampleApiEnv ?url) = Inr (JArr sampleNodes)"
    by (rule d [rule_format, of 200 "JObj [(''data'',
       JObj [(''event'', JObj [(''standings'', JObj [(''nodes'', JArr sampleNodes)])])])]"
       "JObj [(''event'', JObj [(''standings'', JObj [(''nodes'', JArr sampleNodes)])])]"
       "JObj [(''standings'', JObj [(''nodes'', JArr sampleNodes)])]"
       "JObj [(''nodes'', JArr sampleNodes)]" sampleNodes]) (simp add: f2)
  from a b c e k0 k1 k2 f1 show ?thesis by simp
qed

text \<open>
  Claim C7. The code does not do what the claim says when the HTTP call fails with an
  error status.  Here the service refuses the key with status 401 and a JSON body, so that
  \<^verbatim>\<open>res.ok\<close> is false; \<open>getTop8\<close> sends its one request and resolves with the empty list, as
  if the event had no standings, where the claim has it fail with an error.  The other
  HTTP client of the program, \<^verbatim>\<open>removeBackgroundWithAPI\<close>, tests \<^verbatim>\<open>response.ok\<close> and throws.
\<close>

theorem getTop8_http_error_status:
  "VITE_STARTGG_KEY sampleUnauthorizedEnv = Some ''expired'' \<and>
   fetch sampleUnauthorizedEnv (top8Request ''expired'' ''tournament/foo/event/bar'')
     = Responded 401 (Some (JObj [(''message'', JStr ''Invalid authentication token''),
                                  (''success'', JBool False)])) \<and>
   \<not> response_ok 401 \<and>
   getTop8 sampleUnauthorizedEnv ''https://start.gg/tournament/foo/event/bar/overview''
     = ([top8Request ''expired'' ''tournament/foo/event/bar''], Inr (JArr []))"
proof -
  have slug: "extractSlug ''https://start.gg/tournament/foo/event/bar/overview''
                = Inr ''tournament/foo/event/bar''"
    by code_simp
  show ?thesis
    by (simp add: getTop8_def slug sampleUnauthorizedEnv_def sampleUnauthorizedFetch_def
        response_ok_def Let_def)
qed

section \<open>Properties of the colour space converter\<close>

subsection \<open>Rounding errors of single operations\<close>

text \<open>
  Each lemma bounds the distance between a value computed with rounding and the exact
  value it stands for, from the bounds on its operands.
\<close>

lemma eps_pos: "0 < unit_roundoff" and eps_small: "unit_roundoff \<le> 1 / 1000000000000"
  by (simp_all add: unit_roundoff_def)

lemma std_rounding_id: "std_rounding id"
  by (simp add: std_rounding_def unit_roundoff_def)

lemma fl_err:
  assumes "std_rounding fl" and "\<bar>x - y\<bar> \<le> e" and "\<bar>y\<bar> \<le> B"
    and "e + unit_roundoff * (B + e) \<le> c"
  shows "\<bar>fl x - y\<bar> \<le> c"
proof -
  have "\<bar>fl x - x\<bar> \<le> unit_roundoff * \<bar>x\<bar>"
    using assms(1) by (simp add: std_rounding_def)
  also have "\<dots> \<le> unit_roundoff * (B + e)"
    using assms(2,3) eps_pos by (intro mult_left_mono) linarith+
  finally have "\<bar>fl x - x\<bar> \<le> unit_roundoff * (B + e)" .
  with assms(2,4) show ?thesis by linarith
qed

lemma fl_zero: "std_rounding fl \<Longrightarrow> fl 0 = 0"
  using fl_err [of fl 0 0 0 0 0] by simp

lemma fl_pos:
  assumes "std_rounding fl" and "0 < x"
  shows "0 < fl x"
proof -
  have "\<bar>fl x - x\<bar> \<le> unit_roundoff * \<bar>x\<bar>"
    using assms(1) by (simp add: std_rounding_def)
  moreover have "unit_roundoff * \<bar>x\<bar> < \<bar>x\<bar>"
    using assms(2) eps_small by (simp add: unit_roundoff_def)
  ultimately show ?thesis using assms(2) by linarith
qed

lemma fl_nonneg:
  assumes "std_rounding fl" and "0 \<le> x"
  shows "0 \<le> fl x"
  using fl_pos [OF assms(1), of x] fl_zero [OF assms(1)] assms(2) by (cases "x = 0") auto

lemma fl_neg:
  assumes "std_rounding fl" and "x < 0"
  shows "fl x < 0"
proof -
  have "\<bar>fl x - x\<bar> \<le> unit_roundoff * \<bar>x\<bar>"
    using assms(1) by (simp add: std_rounding_def)
  moreover have "unit_roundoff * \<bar>x\<bar> < \<bar>x\<bar>"
    using assms(2) eps_small by (simp add: unit_roundoff_def)
  ultimately show ?thesis using assms(2) by linarith
qed

lemma abs_mult_le:
  fixes a b :: real
  assumes "\<bar>a\<bar> \<le> A" and "\<bar>b\<bar> \<le> B"
  shows "\<bar>a * b\<bar> \<le> A * B"
proof -
  have "\<bar>a * b\<bar> = \<bar>a\<bar> * \<bar>b\<bar>" by (simp add: abs_mult)
  also have "\<dots> \<le> A * B" using assms by (intro mult_mono) auto
  finally show ?thesis .
qed

lemma err_mult:
  fixes x y x' y' :: real
  assumes "\<bar>x - y\<bar> \<le> ea" and "\<bar>x' - y'\<bar> \<le> eb" and "\<bar>y\<bar> \<le> B" and "\<bar>y'\<bar> \<le> B'"
    and "ea * B' + eb * B + ea * eb \<le> c"
  shows "\<bar>x * x' - y * y'\<bar> \<le> c"
proof -
  have "x * x' - y * y' = (x - y) * y' + (x' - y') * y + (x - y) * (x' - y')"
    by (simp add: algebra_simps)
  then have "\<bar>x * x' - y * y'\<bar> \<le> \<bar>(x - y) * y'\<bar> + \<bar>(x' - y') * y\<bar> + \<bar>(x - y) * (x' - y')\<bar>"
    by linarith
  moreover have "\<bar>(x - y) * y'\<bar> \<le> ea * B'" using assms(1,4) by (rule abs_mult_le)
  moreover have "\<bar>(x' - y') * y\<bar> \<le> eb * B" using assms(2,3) by (rule abs_mult_le)
  moreover have "\<bar>(x - y) * (x' - y')\<bar> \<le> ea * eb" using assms(1,2) by (rule abs_mult_le)
  ultimately show ?thesis using assms(5) by linarith
qed

lemma err_div:
  fixes x y x' y' :: real
  assumes "\<bar>x - y\<bar> \<le> ea" and "\<bar>x' - y'\<bar> \<le> eb" and "\<bar>y\<bar> \<le> B" and "mu \<le> y'"
    and "eb < mu" and "0 \<le> eb"
    and "(ea + B * eb / mu) / (mu - eb) \<le> c"
  shows "\<bar>x / x' - y / y'\<bar> \<le> c"
proof -
  have mu: "0 < mu" using assms(5,6) by linarith
  have y': "0 < y'" using mu assms(4) by linarith
  have x': "mu - eb \<le> x'" using assms(2,4) by linarith
  then have x'pos: "0 < x'" using assms(5) by linarith
  have ea: "0 \<le> ea" using assms(1) by linarith
  have B: "0 \<le> B" using assms(3) by linarith
  have "x / x' - y / y' = ((x - y) - y * (x' - y') / y') / x'"
    using y' x'pos by (simp add: field_simps)
  then have "\<bar>x / x' - y / y'\<bar> = \<bar>(x - y) - y * (x' - y') / y'\<bar> / x'"
    using x'pos by simp
  also have "\<dots> \<le> (ea + B * eb / mu) / x'"
  proof -
    have "\<bar>y * (x' - y') / y'\<bar> = \<bar>y * (x' - y')\<bar> / y'" using y' by simp
    also have "\<dots> \<le> (B * eb) / y'"
      using abs_mult_le [OF assms(3) assms(2)] y' by (simp add: divide_right_mono)
    also have "\<dots> \<le> (B * eb) / mu"
      using assms(4) mu B assms(6) by (intro divide_left_mono) (auto intro: mult_pos_pos)
    finally have "\<bar>y * (x' - y') / y'\<bar> \<le> B * eb / mu" .
    with assms(1) have "\<bar>(x - y) - y * (x' - y') / y'\<bar> \<le> ea + B * eb / mu" by linarith
    then show ?thesis using x'pos by (simp add: divide_right_mono)
  qed
  also have "\<dots> \<le> (ea + B * eb / mu) / (mu - eb)"
  proof -
    have "0 \<le> ea + B * eb / mu" using ea B assms(6) mu by simp
    then show ?thesis using x' assms(5) by (intro divide_left_mono) (auto intro: mult_pos_pos)
  qed
  finally show ?thesis using assms(7) by linarith
qed


lemma err_div_const:
  fixes x y k :: real
  assumes "\<bar>x - y\<bar> \<le> e" and "0 < k" and "e / k \<le> c"
  shows "\<bar>x / k - y / k\<bar> \<le> c"
proof -
  have "x / k - y / k = (x - y) / k" by (simp add: diff_divide_distrib)
  then have "\<bar>x / k - y / k\<bar> = \<bar>x - y\<bar> / k" using assms(2) by simp
  also have "\<dots> \<le> e / k" using assms(1,2) by (simp add: divide_right_mono)
  finally show ?thesis using assms(3) by linarith
qed

lemma err_mult_const:
  fixes x y k :: real
  assumes "\<bar>x - y\<bar> \<le> e" and "0 < k" and "e * k \<le> c"
  shows "\<bar>x * k - y * k\<bar> \<le> c"
proof -
  have "x * k - y * k = (x - y) * k" by (simp add: algebra_simps)
  then have "\<bar>x * k - y * k\<bar> = \<bar>x - y\<bar> * k" using assms(2) by (simp add: abs_mult)
  also have "\<dots> \<le> e * k" using assms(1,2) by (simp add: mult_right_mono)
  finally show ?thesis using assms(3) by linarith
qed

subsection \<open>Lightness, chroma and hue of a rounded pixel\<close>

lemma channel_err:
  assumes "std_rounding fl" and "0 \<le> n" and "n \<le> 255"
  shows "\<bar>fl (real_of_int n / 255) - real_of_int n / 255\<bar> \<le> unit_roundoff"
proof (rule fl_err [OF assms(1), where e = 0 and B = 1])
  show "\<bar>real_of_int n / 255 - real_of_int n / 255\<bar> \<le> 0" by simp
  show "\<bar>real_of_int n / 255\<bar> \<le> 1" using assms(2,3) by simp
  show "0 + unit_roundoff * (1 + 0) \<le> unit_roundoff" by simp
qed

lemma channel_mono:
  assumes "std_rounding fl" and "0 \<le> a" and "a < b" and "b \<le> 255"
  shows "fl (real_of_int a / 255) < fl (real_of_int b / 255)"
proof -
  have ea: "\<bar>fl (real_of_int a / 255) - real_of_int a / 255\<bar> \<le> unit_roundoff"
    using assms by (intro channel_err) auto
  have eb: "\<bar>fl (real_of_int b / 255) - real_of_int b / 255\<bar> \<le> unit_roundoff"
    using assms by (intro channel_err) auto
  have "real_of_int a + 1 \<le> real_of_int b" using assms(3) by linarith
  then have "real_of_int a / 255 + 1 / 255 \<le> real_of_int b / 255" by simp
  moreover have "2 * unit_roundoff < 1 / 255" by (simp add: unit_roundoff_def)
  ultimately show ?thesis using ea eb by linarith
qed

lemma lightness_err:
  assumes std: "std_rounding fl" and "\<bar>mx - M\<bar> \<le> unit_roundoff" and "\<bar>mn - m\<bar> \<le> unit_roundoff"
    and "0 \<le> m" and "m \<le> M" and "M \<le> 1"
  shows "\<bar>fl (fl (mx + mn) / 2) - (M + m) / 2\<bar> \<le> 5 * unit_roundoff"
proof -
  have "\<bar>(mx + mn) - (M + m)\<bar> \<le> 2 * unit_roundoff" using assms(2,3) by linarith
  then have "\<bar>fl (mx + mn) - (M + m)\<bar> \<le> 5 * unit_roundoff"
    by (rule fl_err [OF std, where B = 2]) (use assms in \<open>simp_all add: unit_roundoff_def\<close>)
  then have "\<bar>fl (mx + mn) / 2 - (M + m) / 2\<bar> \<le> 3 * unit_roundoff"
    by (rule err_div_const) (simp_all add: unit_roundoff_def)
  then show ?thesis
    by (rule fl_err [OF std, where B = 1]) (use assms in \<open>simp_all add: unit_roundoff_def\<close>)
qed

lemma diff_err:
  assumes std: "std_rounding fl" and "\<bar>x - X\<bar> \<le> unit_roundoff" and "\<bar>y - Y\<bar> \<le> unit_roundoff"
    and "0 \<le> X" and "X \<le> 1" and "0 \<le> Y" and "Y \<le> 1"
  shows "\<bar>fl (x - y) - (X - Y)\<bar> \<le> 4 * unit_roundoff"
proof -
  have "\<bar>(x - y) - (X - Y)\<bar> \<le> 2 * unit_roundoff" using assms(2,3) by linarith
  then show ?thesis
    by (rule fl_err [OF std, where B = 1]) (use assms in \<open>simp_all add: unit_roundoff_def\<close>)
qed


lemma quotient_err:
  assumes std: "std_rounding fl" and d: "\<bar>d - d0\<bar> \<le> 4 * unit_roundoff"
    and den: "\<bar>den - den0\<bar> \<le> 8 * unit_roundoff"
    and "\<bar>d0\<bar> \<le> den0" and "den0 \<le> 2" and "1 / 255 \<le> den0"
  shows "\<bar>fl (d / den) - d0 / den0\<bar> \<le> 1100000 * unit_roundoff"
proof -
  have "\<bar>d0\<bar> \<le> 2" using assms(4,5) by linarith
  with d den have "\<bar>d / den - d0 / den0\<bar> \<le> 1050000 * unit_roundoff"
    by (rule err_div [where mu = "1 / 255"]) (use assms(6) in \<open>simp_all add: unit_roundoff_def\<close>)
  moreover have "\<bar>d0 / den0\<bar> \<le> 1" using assms(4,6) by simp
  ultimately show ?thesis
    by (rule fl_err [OF std]) (simp add: unit_roundoff_def)
qed

lemma hue_err:
  assumes std: "std_rounding fl" and "\<bar>x - X\<bar> \<le> unit_roundoff" and "\<bar>y - Y\<bar> \<le> unit_roundoff"
    and "0 \<le> X" and "X \<le> 1" and "0 \<le> Y" and "Y \<le> 1"
    and d: "\<bar>d - d0\<bar> \<le> 4 * unit_roundoff" and "1 / 255 \<le> d0" and "\<bar>X - Y\<bar> \<le> d0"
    and "d0 \<le> 1" and "0 \<le> c" and "c \<le> 6"
  shows "\<bar>fl (fl (fl (fl (x - y) / d) + c) / 6) - ((X - Y) / d0 + c) / 6\<bar>
           \<le> 200000 * unit_roundoff"
proof -
  have n: "\<bar>fl (x - y) - (X - Y)\<bar> \<le> 4 * unit_roundoff"
    using assms by (intro diff_err) auto
  have den: "\<bar>d - d0\<bar> \<le> 8 * unit_roundoff" using d eps_pos by linarith
  have "d0 \<le> 2" using assms(11) by simp
  from quotient_err [OF std n den assms(10) this assms(9)]
  have q: "\<bar>fl (fl (x - y) / d) - (X - Y) / d0\<bar> \<le> 1100000 * unit_roundoff" .
  have qb: "\<bar>(X - Y) / d0\<bar> \<le> 1" using assms(9,10) by simp
  from q have "\<bar>(fl (fl (x - y) / d) + c) - ((X - Y) / d0 + c)\<bar> \<le> 1100000 * unit_roundoff"
    by simp
  moreover have "\<bar>(X - Y) / d0 + c\<bar> \<le> 7" using qb assms(12,13) by linarith
  ultimately have "\<bar>fl (fl (fl (x - y) / d) + c) - ((X - Y) / d0 + c)\<bar> \<le> 1100010 * unit_roundoff"
    by (rule fl_err [OF std]) (simp add: unit_roundoff_def)
  then have "\<bar>fl (fl (fl (x - y) / d) + c) / 6 - ((X - Y) / d0 + c) / 6\<bar> \<le> 190000 * unit_roundoff"
    by (rule err_div_const) (simp_all add: unit_roundoff_def)
  moreover have "\<bar>((X - Y) / d0 + c) / 6\<bar> \<le> 2" using qb assms(12,13) by argo
  ultimately show ?thesis
    by (rule fl_err [OF std]) (simp add: unit_roundoff_def)
qed


lemma scale_round_trip:
  assumes std: "std_rounding fl" and "\<bar>v - v0\<bar> \<le> e" and "\<bar>v0\<bar> \<le> 1" and "e \<le> 1"
    and "0 < K"
  shows "\<bar>fl (fl (v * K) / K) - v0\<bar> \<le> e + 5 * unit_roundoff"
proof -
  have e0: "0 \<le> e" using assms(2) by linarith
  have "\<bar>v * K - v0 * K\<bar> \<le> e * K"
    using assms(2,5) by (rule err_mult_const) simp
  moreover have "\<bar>v0 * K\<bar> \<le> K" using assms(3,5) by (simp add: abs_mult)
  ultimately have "\<bar>fl (v * K) - v0 * K\<bar> \<le> e * K + unit_roundoff * (K + e * K)"
    by (rule fl_err [OF std]) simp
  then have "\<bar>fl (v * K) / K - v0 * K / K\<bar> \<le> e + unit_roundoff * (1 + e)"
    by (rule err_div_const) (use assms(5) in \<open>simp_all add: field_simps\<close>)
  moreover have "unit_roundoff * (1 + e) \<le> unit_roundoff * 2"
    using assms(4) eps_pos by (intro mult_left_mono) simp_all
  ultimately have "\<bar>fl (v * K) / K - v0\<bar> \<le> e + 2 * unit_roundoff"
    using assms(5) by simp
  then show ?thesis using assms(3)
  proof (rule fl_err [OF std])
    have "unit_roundoff * (1 + (e + 2 * unit_roundoff)) \<le> unit_roundoff * 3"
      using assms(4) eps_small eps_pos by (intro mult_left_mono) simp_all
    then show "e + 2 * unit_roundoff + unit_roundoff * (1 + (e + 2 * unit_roundoff))
                 \<le> e + 5 * unit_roundoff"
      by simp
  qed
qed

subsection \<open>The interpolation of hue2rgb\<close>

text \<open>
  In exact arithmetic \<open>hue2rgb p q t\<close> is \<open>p + (q - p) * tent (wrap t)\<close>.  With rounding, the
  branch taken near a threshold may differ from the exact one; as \<open>tent\<close> is continuous, the
  result stays close.
\<close>

lemma tent_range: "0 \<le> tent y" "tent y \<le> 1"
  by (simp_all add: tent_def)

lemma tent_lipschitz: "\<bar>tent y - tent z\<bar> \<le> 6 * \<bar>y - z\<bar>"
  unfolding tent_def by argo

lemma tent_le: "0 \<le> y \<Longrightarrow> tent y \<le> 6 * y"
  unfolding tent_def by argo

lemma tent_zero: "2 / 3 \<le> y \<Longrightarrow> tent y = 0"
  unfolding tent_def by argo

lemma tent_rise: "0 \<le> y \<Longrightarrow> 6 * y \<le> 1 + c \<Longrightarrow> 0 \<le> c \<Longrightarrow> c \<le> 1 \<Longrightarrow> \<bar>6 * y - tent y\<bar> \<le> c"
  unfolding tent_def by argo

lemma tent_top: "1 - c \<le> 6 * y \<Longrightarrow> 1 - c \<le> 4 - 6 * y \<Longrightarrow> 0 \<le> c \<Longrightarrow> \<bar>1 - tent y\<bar> \<le> c"
  unfolding tent_def by argo

lemma tent_fall: "3 - c \<le> 6 * y \<Longrightarrow> - c \<le> 4 - 6 * y \<Longrightarrow> 0 \<le> c \<Longrightarrow> c \<le> 1
   \<Longrightarrow> \<bar>(4 - 6 * y) - tent y\<bar> \<le> c"
  unfolding tent_def by argo

lemma tent_end: "4 - 6 * y \<le> c \<Longrightarrow> 0 \<le> c \<Longrightarrow> \<bar>tent y\<bar> \<le> c"
  unfolding tent_def by argo


lemma hue2rgb_exact:
  assumes "- 1 \<le> t" and "t \<le> 2"
  shows "hue2rgb id p q t = p + (q - p) * tent (wrap t)"
proof -
  define x where "x = wrap t"
  have x: "0 \<le> x" "x \<le> 1" using assms unfolding x_def wrap_def by argo+
  have run: "hue2rgb id p q t =
      (if x < 1 / 6 then p + (q - p) * 6 * x
       else if x < 1 / 2 then q
       else if x < 2 / 3 then p + (q - p) * (2 / 3 - x) * 6
       else p)"
    using assms by (auto simp: hue2rgb_def Let_def x_def wrap_def)
  consider (a) "x < 1 / 6" | (b) "1 / 6 \<le> x" "x < 1 / 2" | (c) "1 / 2 \<le> x" "x < 2 / 3"
    | (d) "2 / 3 \<le> x"
    by linarith
  then show ?thesis
  proof cases
    case a
    then have "tent x = 6 * x" using x unfolding tent_def by argo
    with a show ?thesis by (simp add: run x_def [symmetric])
  next
    case b
    then have "tent x = 1" unfolding tent_def by argo
    with b show ?thesis by (simp add: run x_def [symmetric])
  next
    case c
    then have tx: "tent x = 4 - 6 * x" unfolding tent_def by argo
    have "hue2rgb id p q t = p + (q - p) * (2 / 3 - x) * 6" using c by (simp add: run)
    also have "\<dots> = p + (q - p) * (4 - 6 * x)" by (simp add: field_simps)
    finally show ?thesis by (simp add: tx x_def [symmetric])
  next
    case d
    then have "tent x = 0" by (rule tent_zero)
    with d show ?thesis by (simp add: run x_def [symmetric])
  qed
qed

lemma fl_abs:
  assumes "std_rounding fl" and "\<bar>z\<bar> \<le> B"
  shows "\<bar>fl z - z\<bar> \<le> unit_roundoff * B"
proof -
  have "\<bar>fl z - z\<bar> \<le> unit_roundoff * \<bar>z\<bar>"
    using assms(1) by (simp add: std_rounding_def)
  also have "\<dots> \<le> unit_roundoff * B"
    using assms(2) eps_pos by (intro mult_left_mono) simp_all
  finally show ?thesis .
qed

lemma wrapped_close:
  assumes std: "std_rounding fl" and t0: "\<bar>t0 - \<tau>\<bar> \<le> a"
    and range: "- 5 / 6 \<le> \<tau>" "\<tau> \<le> 4 / 3"
    and a: "unit_roundoff \<le> a" "a \<le> 1 / 1000"
    and t1: "t1 = (if t0 < 0 then fl (t0 + 1) else t0)"
    and t: "t = (if t1 > 1 then fl (t1 - 1) else t1)"
  shows "0 \<le> t \<and> t \<le> 1 \<and> \<bar>tent t - tent (wrap \<tau>)\<bar> \<le> 36 * a"
proof -
  note u = eps_pos
  have A: "\<bar>fl (t0 + 1) - (t0 + 1)\<bar> \<le> unit_roundoff \<and> 0 < fl (t0 + 1)" if "t0 < 0"
  proof -
    have "\<bar>t0 + 1\<bar> \<le> 1" "0 < t0 + 1" using that t0 range a by linarith+
    then show ?thesis using fl_abs [OF std, of "t0 + 1" 1] fl_pos [OF std, of "t0 + 1"] by simp
  qed
  have B: "\<bar>fl (fl (t0 + 1) - 1) - (fl (t0 + 1) - 1)\<bar> \<le> unit_roundoff \<and> 0 < fl (fl (t0 + 1) - 1)"
    if "t0 < 0" "1 < fl (t0 + 1)"
  proof -
    have "\<bar>fl (t0 + 1) - 1\<bar> \<le> 1" "0 < fl (t0 + 1) - 1" using that A [OF that(1)] a u by linarith+
    then show ?thesis
      using fl_abs [OF std, of "fl (t0 + 1) - 1" 1] fl_pos [OF std, of "fl (t0 + 1) - 1"] by simp
  qed
  have C: "\<bar>fl (t0 - 1) - (t0 - 1)\<bar> \<le> unit_roundoff \<and> 0 < fl (t0 - 1)" if "1 < t0"
  proof -
    have "\<bar>t0 - 1\<bar> \<le> 1" "0 < t0 - 1" using that t0 range a by linarith+
    then show ?thesis using fl_abs [OF std, of "t0 - 1" 1] fl_pos [OF std, of "t0 - 1"] by simp
  qed
  show ?thesis
  proof (cases "t0 < 0")
    case neg: True
    show ?thesis
    proof (cases "1 < fl (t0 + 1)")
      case True
      then have tt: "t = fl (fl (t0 + 1) - 1)" using neg t t1 by simp
      show ?thesis unfolding tt tent_def wrap_def
        using A [OF neg] B [OF neg True] True neg t0 range a u by argo
    next
      case False
      then have tt: "t = fl (t0 + 1)" using neg t t1 by simp
      show ?thesis unfolding tt tent_def wrap_def
        using A [OF neg] False neg t0 range a u by argo
    qed
  next
    case pos: False
    show ?thesis
    proof (cases "1 < t0")
      case True
      then have tt: "t = fl (t0 - 1)" using pos t t1 by simp
      show ?thesis unfolding tt tent_def wrap_def
        using C [OF True] True pos t0 range a u by argo
    next
      case False
      then have tt: "t = t0" using pos t t1 by simp
      show ?thesis unfolding tt tent_def wrap_def
        using False pos t0 range a u by argo
    qed
  qed
qed

lemma hue2rgb_close:
  assumes std: "std_rounding fl" and p: "\<bar>p - p0\<bar> \<le> a" and q: "\<bar>q - q0\<bar> \<le> a"
    and t0: "\<bar>t0 - \<tau>\<bar> \<le> a"
    and pq: "0 \<le> p0" "p0 \<le> 1" "0 \<le> q0" "q0 \<le> 1"
    and range: "- 5 / 6 \<le> \<tau>" "\<tau> \<le> 4 / 3"
    and a: "unit_roundoff \<le> a" "a \<le> 1 / 1000"
  shows "\<bar>hue2rgb fl p q t0 - (p0 + (q0 - p0) * tent (wrap \<tau>))\<bar> \<le> 150 * a"
proof -
  note u = eps_pos eps_small
  define t1 where "t1 = (if t0 < 0 then fl (t0 + 1) else t0)"
  define t where "t = (if t1 > 1 then fl (t1 - 1) else t1)"
  define D where "D = q - p"
  define W where "W = p + D * tent t"
  from wrapped_close [OF std t0 range a t1_def t_def]
  have t: "0 \<le> t" "t \<le> 1" and tt: "\<bar>tent t - tent (wrap \<tau>)\<bar> \<le> 36 * a" by auto
  have D: "\<bar>D\<bar> \<le> 2" and DD: "\<bar>D - (q0 - p0)\<bar> \<le> 2 * a"
    unfolding D_def using p q pq a by argo+
  have c6: "\<bar>fl (1 / 6) - 1 / 6\<bar> \<le> unit_roundoff * (1 / 6)"
    by (rule fl_abs [OF std]) simp
  have c2: "\<bar>fl (1 / 2) - 1 / 2\<bar> \<le> unit_roundoff * (1 / 2)"
    by (rule fl_abs [OF std]) simp
  have c3: "\<bar>fl (2 / 3) - 2 / 3\<bar> \<le> unit_roundoff * (2 / 3)"
    by (rule fl_abs [OF std]) simp
  have res: "hue2rgb fl p q t0 =
      (if t < fl (1 / 6) then fl (p + fl (fl (fl D * 6) * t))
       else if t < fl (1 / 2) then q
       else if t < fl (2 / 3) then fl (p + fl (fl (fl D * fl (fl (2 / 3) - t)) * 6))
       else p)"
    by (simp add: hue2rgb_def Let_def t1_def t_def D_def)
  have x1: "\<bar>fl D - D\<bar> \<le> 2 * unit_roundoff"
    using fl_abs [OF std D] by simp
  have pb: "\<bar>p\<bar> \<le> 2" using p pq a by argo
  have M1: "\<bar>hue2rgb fl p q t0 - W\<bar> \<le> 110 * unit_roundoff"
  proof -
    consider (b1) "t < fl (1 / 6)" | (b2) "fl (1 / 6) \<le> t" "t < fl (1 / 2)"
      | (b3) "fl (1 / 6) \<le> t" "fl (1 / 2) \<le> t" "t < fl (2 / 3)"
      | (b4) "fl (1 / 6) \<le> t" "fl (1 / 2) \<le> t" "fl (2 / 3) \<le> t"
      by linarith
    then show ?thesis
    proof cases
      case b1
      have "\<bar>fl D * 6 - D * 6\<bar> \<le> 12 * unit_roundoff"
        using x1 by (rule err_mult_const) simp_all
      moreover have D6: "\<bar>D * 6\<bar> \<le> 12" using D by argo
      ultimately have x2: "\<bar>fl (fl D * 6) - D * 6\<bar> \<le> 25 * unit_roundoff"
        by (rule fl_err [OF std]) (simp add: unit_roundoff_def)
      have "\<bar>t - t\<bar> \<le> 0" "\<bar>t\<bar> \<le> 1" using t by simp_all
      from x2 this(1) D6 this(2)
      have "\<bar>fl (fl D * 6) * t - D * 6 * t\<bar> \<le> 25 * unit_roundoff"
        by (rule err_mult) simp
      moreover have D6t: "\<bar>D * 6 * t\<bar> \<le> 12"
        using abs_mult_le [OF D6, of t 1] t by simp
      ultimately have x3: "\<bar>fl (fl (fl D * 6) * t) - D * 6 * t\<bar> \<le> 38 * unit_roundoff"
        by (rule fl_err [OF std]) (simp add: unit_roundoff_def)
      then have "\<bar>(p + fl (fl (fl D * 6) * t)) - (p + D * 6 * t)\<bar> \<le> 38 * unit_roundoff"
        by simp
      moreover have "\<bar>p + D * 6 * t\<bar> \<le> 14" using pb D6t by linarith
      ultimately have x4: "\<bar>fl (p + fl (fl (fl D * 6) * t)) - (p + D * 6 * t)\<bar> \<le> 53 * unit_roundoff"
        by (rule fl_err [OF std]) (simp add: unit_roundoff_def)
      have "\<bar>6 * t - tent t\<bar> \<le> unit_roundoff"
        using b1 c6 t u by (intro tent_rise) linarith+
      from abs_mult_le [OF D this]
      have "\<bar>(p + D * 6 * t) - W\<bar> \<le> 2 * unit_roundoff"
        by (simp add: W_def algebra_simps)
      with x4 have "\<bar>fl (p + fl (fl (fl D * 6) * t)) - W\<bar> \<le> 55 * unit_roundoff"
        by linarith
      then show ?thesis using b1 u by (simp add: res)
    next
      case b2
      have "\<bar>1 - tent t\<bar> \<le> 3 * unit_roundoff"
        using b2 c6 c2 t u by (intro tent_top) linarith+
      from abs_mult_le [OF D this]
      have "\<bar>q - W\<bar> \<le> 6 * unit_roundoff"
        by (simp add: W_def D_def algebra_simps)
      then show ?thesis using b2 u by (simp add: res)
    next
      case b3
      have "\<bar>(fl (2 / 3) - t) - (2 / 3 - t)\<bar> \<le> unit_roundoff"
        using c3 u by linarith
      moreover have yb: "\<bar>2 / 3 - t\<bar> \<le> 1" using t by argo
      ultimately have y: "\<bar>fl (fl (2 / 3) - t) - (2 / 3 - t)\<bar> \<le> 3 * unit_roundoff"
        by (rule fl_err [OF std]) (simp add: unit_roundoff_def)
      from x1 y D yb
      have "\<bar>fl D * fl (fl (2 / 3) - t) - D * (2 / 3 - t)\<bar> \<le> 9 * unit_roundoff"
        by (rule err_mult) (simp add: unit_roundoff_def)
      moreover have Dy: "\<bar>D * (2 / 3 - t)\<bar> \<le> 2"
        using abs_mult_le [OF D yb] by simp
      ultimately have z1: "\<bar>fl (fl D * fl (fl (2 / 3) - t)) - D * (2 / 3 - t)\<bar> \<le> 12 * unit_roundoff"
        by (rule fl_err [OF std]) (simp add: unit_roundoff_def)
      then have "\<bar>fl (fl D * fl (fl (2 / 3) - t)) * 6 - D * (2 / 3 - t) * 6\<bar> \<le> 72 * unit_roundoff"
        by (rule err_mult_const) simp_all
      moreover have Dy6: "\<bar>D * (2 / 3 - t) * 6\<bar> \<le> 12" using Dy by argo
      ultimately have z2: "\<bar>fl (fl (fl D * fl (fl (2 / 3) - t)) * 6) - D * (2 / 3 - t) * 6\<bar>
                             \<le> 85 * unit_roundoff"
        by (rule fl_err [OF std]) (simp add: unit_roundoff_def)
      then have "\<bar>(p + fl (fl (fl D * fl (fl (2 / 3) - t)) * 6)) - (p + D * (2 / 3 - t) * 6)\<bar>
                   \<le> 85 * unit_roundoff"
        by simp
      moreover have "\<bar>p + D * (2 / 3 - t) * 6\<bar> \<le> 14" using pb Dy6 by linarith
      ultimately have z3: "\<bar>fl (p + fl (fl (fl D * fl (fl (2 / 3) - t)) * 6))
                              - (p + D * (2 / 3 - t) * 6)\<bar> \<le> 100 * unit_roundoff"
        by (rule fl_err [OF std]) (simp add: unit_roundoff_def)
      have "\<bar>(4 - 6 * t) - tent t\<bar> \<le> 4 * unit_roundoff"
        using b3 c2 c3 t u by (intro tent_fall) linarith+
      from abs_mult_le [OF D this]
      have "\<bar>(p + D * (2 / 3 - t) * 6) - W\<bar> \<le> 8 * unit_roundoff"
        by (simp add: W_def algebra_simps)
      with z3 have "\<bar>fl (p + fl (fl (fl D * fl (fl (2 / 3) - t)) * 6)) - W\<bar> \<le> 108 * unit_roundoff"
        by linarith
      then show ?thesis using b3 u by (simp add: res)
    next
      case b4
      have "\<bar>tent t\<bar> \<le> 4 * unit_roundoff"
        using b4 c3 t u by (intro tent_end) linarith+
      from abs_mult_le [OF D this]
      have "\<bar>p - W\<bar> \<le> 8 * unit_roundoff"
        by (simp add: W_def algebra_simps)
      then show ?thesis using b4 u by (simp add: res)
    qed
  qed
  have M2: "\<bar>W - (p0 + (q0 - p0) * tent (wrap \<tau>))\<bar> \<le> 39 * a"
  proof -
    have "W - (p0 + (q0 - p0) * tent (wrap \<tau>))
            = (p - p0) + (D - (q0 - p0)) * tent t + (q0 - p0) * (tent t - tent (wrap \<tau>))"
      by (simp add: W_def algebra_simps)
    moreover have "\<bar>(D - (q0 - p0)) * tent t\<bar> \<le> 2 * a * 1"
      using DD by (rule abs_mult_le) (use tent_range [of t] in simp)
    moreover have "\<bar>(q0 - p0) * (tent t - tent (wrap \<tau>))\<bar> \<le> 1 * (36 * a)"
      using _ tt by (rule abs_mult_le) (use pq in argo)
    ultimately show ?thesis using p by linarith
  qed
  from M1 M2 a(1) show ?thesis by linarith
qed

subsection \<open>Saturation, and the values p and q\<close>

text \<open>
  With \<open>M\<close> and \<open>m\<close> the greatest and the least channel, the exact \<open>q\<close> is \<open>M\<close> and the exact
  \<open>p\<close> is \<open>m\<close>, in both branches on the lightness.
\<close>

lemma sat_exact_range:
  fixes M m :: real
  assumes "0 \<le> m" and "m < M" and "M \<le> 1"
    and "s0 = (if M + m > 1 then (M - m) / (2 - M - m) else (M - m) / (M + m))"
  shows "0 < s0" and "s0 \<le> 1"
  using assms by (auto simp: field_simps)

lemma q_exact:
  fixes M m :: real
  assumes "0 \<le> m" and "m < M" and "M \<le> 1"
    and "s0 = (if M + m > 1 then (M - m) / (2 - M - m) else (M - m) / (M + m))"
  shows "M + m \<le> 1 \<Longrightarrow> (M + m) / 2 * (1 + s0) = M"
    and "1 \<le> M + m \<Longrightarrow> (M + m) / 2 + s0 - (M + m) / 2 * s0 = M"
proof -
  show "(M + m) / 2 * (1 + s0) = M" if "M + m \<le> 1"
  proof -
    have "M + m \<noteq> 0" using assms by linarith
    then show ?thesis using that assms(4) by (simp add: field_simps)
  qed
  show "(M + m) / 2 + s0 - (M + m) / 2 * s0 = M" if "1 \<le> M + m"
  proof (cases "M + m = 1")
    case True
    then have "s0 = M - m" using assms(4) by simp
    then show ?thesis using True by (simp add: algebra_simps)
  next
    case False
    then have gt: "M + m > 1" using that by simp
    have "2 - M - m \<noteq> 0" using assms by linarith
    then show ?thesis using gt assms(4) by (simp add: field_simps)
  qed
qed


lemma qp_err:
  assumes std: "std_rounding fl"
    and l: "\<bar>l - (M + m) / 2\<bar> \<le> 20 * unit_roundoff"
    and s: "\<bar>s - s0\<bar> \<le> 1200000 * unit_roundoff"
    and Mm: "0 \<le> m" "m < M" "M \<le> 1"
    and s0: "s0 = (if M + m > 1 then (M - m) / (2 - M - m) else (M - m) / (M + m))"
    and disc: "M + m = 1 \<or> 1 + 1 / 255 \<le> M + m \<or> M + m \<le> 1 - 1 / 255"
    and q: "q = (if l < 0.5 then fl (l * fl (1 + s)) else fl (fl (l + s) - fl (l * s)))"
    and p: "p = fl (fl (2 * l) - q)"
  shows "\<bar>q - M\<bar> \<le> 3000000 * unit_roundoff" and "\<bar>p - m\<bar> \<le> 3100000 * unit_roundoff"
proof -
  note u = eps_pos eps_small
  define l0 where "l0 = (M + m) / 2"
  have l': "\<bar>l - l0\<bar> \<le> 20 * unit_roundoff" using l by (simp add: l0_def)
  have l0b: "\<bar>l0\<bar> \<le> 1" using Mm by (simp add: l0_def)
  note sr = sat_exact_range [OF Mm s0]
  have s0b: "\<bar>s0\<bar> \<le> 1" using sr by simp
  have Mb: "\<bar>M\<bar> \<le> 1" using Mm by simp
  have qM: "\<bar>q - M\<bar> \<le> 3000000 * unit_roundoff"
  proof (cases "l < 0.5")
    case True
    then have "M + m < 1 + 1 / 255" using l u by (simp add: l0_def) argo
    with disc have le: "M + m \<le> 1" by linarith
    from q_exact(1) [OF Mm s0 le] have ex: "l0 * (1 + s0) = M" by (simp add: l0_def)
    have "\<bar>(1 + s) - (1 + s0)\<bar> \<le> 1200000 * unit_roundoff" using s by simp
    moreover have b1: "\<bar>1 + s0\<bar> \<le> 2" using sr by simp
    ultimately have f1: "\<bar>fl (1 + s) - (1 + s0)\<bar> \<le> 1200010 * unit_roundoff"
      by (rule fl_err [OF std]) (simp add: unit_roundoff_def)
    from l' f1 l0b b1
    have "\<bar>l * fl (1 + s) - l0 * (1 + s0)\<bar> \<le> 1200100 * unit_roundoff"
      by (rule err_mult) (simp add: unit_roundoff_def)
    then have "\<bar>l * fl (1 + s) - M\<bar> \<le> 1200100 * unit_roundoff" by (simp add: ex)
    then have "\<bar>fl (l * fl (1 + s)) - M\<bar> \<le> 1200200 * unit_roundoff"
      using Mb by (rule fl_err [OF std]) (simp add: unit_roundoff_def)
    then show ?thesis using True q u by simp
  next
    case False
    then have "1 - 1 / 255 < M + m" using l u by (simp add: l0_def) argo
    with disc have ge: "1 \<le> M + m" by linarith
    from q_exact(2) [OF Mm s0 ge] have ex: "l0 + s0 - l0 * s0 = M" by (simp add: l0_def)
    have "\<bar>(l + s) - (l0 + s0)\<bar> \<le> 1200020 * unit_roundoff" using l' s by linarith
    moreover have "\<bar>l0 + s0\<bar> \<le> 2" using l0b s0b by linarith
    ultimately have f1: "\<bar>fl (l + s) - (l0 + s0)\<bar> \<le> 1200030 * unit_roundoff"
      by (rule fl_err [OF std]) (simp add: unit_roundoff_def)
    from l' s l0b s0b
    have "\<bar>l * s - l0 * s0\<bar> \<le> 1200030 * unit_roundoff"
      by (rule err_mult) (simp add: unit_roundoff_def)
    moreover have "\<bar>l0 * s0\<bar> \<le> 1" using abs_mult_le [OF l0b s0b] by simp
    ultimately have f2: "\<bar>fl (l * s) - l0 * s0\<bar> \<le> 1200040 * unit_roundoff"
      by (rule fl_err [OF std]) (simp add: unit_roundoff_def)
    from f1 f2 have "\<bar>(fl (l + s) - fl (l * s)) - (l0 + s0 - l0 * s0)\<bar> \<le> 2400070 * unit_roundoff"
      by linarith
    then have "\<bar>(fl (l + s) - fl (l * s)) - M\<bar> \<le> 2400070 * unit_roundoff" by (simp add: ex)
    then have "\<bar>fl (fl (l + s) - fl (l * s)) - M\<bar> \<le> 2400080 * unit_roundoff"
      using Mb by (rule fl_err [OF std]) (simp add: unit_roundoff_def)
    then show ?thesis using False q u by simp
  qed
  have "\<bar>2 * l - 2 * l0\<bar> \<le> 40 * unit_roundoff" using l' by linarith
  moreover have "\<bar>2 * l0\<bar> \<le> 2" using l0b by linarith
  ultimately have g1: "\<bar>fl (2 * l) - 2 * l0\<bar> \<le> 50 * unit_roundoff"
    by (rule fl_err [OF std]) (simp add: unit_roundoff_def)
  have "2 * l0 - M = m" unfolding l0_def by argo
  with g1 qM have "\<bar>(fl (2 * l) - q) - m\<bar> \<le> 3000050 * unit_roundoff" by linarith
  moreover have "\<bar>m\<bar> \<le> 1" using Mm by simp
  ultimately have "\<bar>fl (fl (2 * l) - q) - m\<bar> \<le> 3000060 * unit_roundoff"
    by (rule fl_err [OF std]) (simp add: unit_roundoff_def)
  then have pm: "\<bar>p - m\<bar> \<le> 3100000 * unit_roundoff" using p u by simp
  show "\<bar>q - M\<bar> \<le> 3000000 * unit_roundoff" by (rule qM)
  show "\<bar>p - m\<bar> \<le> 3100000 * unit_roundoff" by (rule pm)
qed

subsection \<open>The channels in exact arithmetic, and the final rounding\<close>

lemma exact_mix:
  fixes M m d0 w xn xp :: real
  assumes "xn \<le> M" and "xp \<le> M" and "m = min xn xp" and "d0 = M - m" and "0 < d0"
    and "w = (xn - xp) / d0"
  shows "- 1 \<le> w" and "w \<le> 1"
    and "m + d0 * max 0 w = xn" and "m + d0 * max 0 (- w) = xp" and "m + d0 * 1 = M"
proof -
  have dw: "d0 * w = xn - xp" using assms(5,6) by simp
  have "\<bar>xn - xp\<bar> \<le> d0" using assms(1-4) by argo
  then have "\<bar>w\<bar> \<le> 1" using assms(5,6) by simp
  then show "- 1 \<le> w" and "w \<le> 1" by argo+
  show "m + d0 * max 0 w = xn"
  proof (cases "0 \<le> w")
    case True
    then have "0 \<le> d0 * w" using assms(5) by simp
    then have "xp \<le> xn" using dw by linarith
    then show ?thesis using True dw assms(3) by (simp add: max_def min_def)
  next
    case False
    then have "d0 * w < 0" using assms(5) by (simp add: mult_pos_neg)
    then have "xn < xp" using dw by linarith
    then show ?thesis using False assms(3) by (simp add: max_def min_def)
  qed
  show "m + d0 * max 0 (- w) = xp"
  proof (cases "0 \<le> w")
    case True
    then have "0 \<le> d0 * w" using assms(5) by simp
    then have "xp \<le> xn" using dw by linarith
    then show ?thesis using True assms(3) by (simp add: max_def min_def)
  next
    case False
    then have "d0 * w < 0" using assms(5) by (simp add: mult_pos_neg)
    then have "xn < xp" using dw by linarith
    moreover have "d0 * (- w) = xp - xn" using dw by simp
    ultimately show ?thesis using False assms(3) by (simp add: max_def min_def)
  qed
  show "m + d0 * 1 = M" using assms(4) by simp
qed

lemma round_exact:
  assumes "\<bar>x - real_of_int n\<bar> < 1 / 2"
  shows "Math_round x = n"
proof -
  have "real_of_int n \<le> x + 1 / 2" "x + 1 / 2 < real_of_int n + 1"
    using assms by linarith+
  then show ?thesis unfolding Math_round_def by (simp add: floor_unique)
qed

lemma final_channel:
  assumes std: "std_rounding fl" and c: "\<bar>c - real_of_int n / 255\<bar> \<le> e"
    and e: "e \<le> 1 / 1000000" and n: "0 \<le> n" "n \<le> 255"
  shows "Math_round (fl (c * 255)) = n"
proof (rule round_exact)
  note u = eps_pos eps_small
  have "\<bar>c * 255 - real_of_int n / 255 * 255\<bar> \<le> e * 255"
    using c by (rule err_mult_const) simp_all
  then have "\<bar>c * 255 - real_of_int n\<bar> \<le> 255 / 1000000" using e by simp
  moreover have "\<bar>real_of_int n\<bar> \<le> 255" using n by simp
  ultimately have "\<bar>fl (c * 255) - real_of_int n\<bar> \<le> 1 / 1000"
    by (rule fl_err [OF std]) (simp add: unit_roundoff_def)
  then show "\<bar>fl (c * 255) - real_of_int n\<bar> < 1 / 2" by simp
qed

subsection \<open>hslToRgb on values close to an exact conversion\<close>

lemma hslToRgb_exact_result:
  assumes std: "std_rounding fl"
    and h: "\<bar>fl (H / 360) - h0\<bar> \<le> 200010 * unit_roundoff"
    and s: "\<bar>fl (S / 100) - s0\<bar> \<le> 1200000 * unit_roundoff"
    and l: "\<bar>fl (L / 100) - (M + m) / 2\<bar> \<le> 20 * unit_roundoff"
    and Mm: "0 \<le> m" "m < M" "M \<le> 1" and gap: "1 / 255 \<le> M - m"
    and s0: "s0 = (if M + m > 1 then (M - m) / (2 - M - m) else (M - m) / (M + m))"
    and disc: "M + m = 1 \<or> 1 + 1 / 255 \<le> M + m \<or> M + m \<le> 1 - 1 / 255"
    and h0: "0 \<le> h0" "h0 \<le> 1"
    and tr: "m + (M - m) * tent (wrap (h0 + 1 / 3)) = real_of_int r / 255"
    and tg: "m + (M - m) * tent (wrap h0) = real_of_int g / 255"
    and tb: "m + (M - m) * tent (wrap (h0 - 1 / 3)) = real_of_int b / 255"
    and rgb: "0 \<le> r" "r \<le> 255" "0 \<le> g" "g \<le> 255" "0 \<le> b" "b \<le> 255"
  shows "hslToRgb fl H S L = (r, g, b)"
proof -
  note u = eps_pos eps_small
  define a where "a = 3100000 * unit_roundoff"
  have a: "unit_roundoff \<le> a" "a \<le> 1 / 1000" and a': "150 * a \<le> 1 / 1000000"
    by (simp_all add: a_def unit_roundoff_def)
  define hh where "hh = fl (H / 360)"
  define ss where "ss = fl (S / 100)"
  define ll where "ll = fl (L / 100)"
  define q where "q = (if ll < 0.5 then fl (ll * fl (1 + ss)) else fl (fl (ll + ss) - fl (ll * ss)))"
  define p where "p = fl (fl (2 * ll) - q)"
  have s0lb: "1 / 510 \<le> s0"
  proof -
    have den: "(M - m) / 2 \<le> (M - m) / den" if "0 < den" "den \<le> 2" for den
      using that Mm by (intro divide_left_mono) simp_all
    have "(M - m) / 2 \<le> s0"
    proof (cases "M + m > 1")
      case True
      then show ?thesis using den [of "2 - M - m"] Mm s0 by simp
    next
      case False
      then show ?thesis using den [of "M + m"] Mm s0 by simp
    qed
    with gap show ?thesis by argo
  qed
  have "1200000 * unit_roundoff < 1 / 510" by (simp add: unit_roundoff_def)
  with s s0lb have ss0: "ss \<noteq> 0" unfolding ss_def by argo
  have res: "hslToRgb fl H S L =
      (Math_round (fl (hue2rgb fl p q (fl (hh + fl (1 / 3))) * 255)),
       Math_round (fl (hue2rgb fl p q hh * 255)),
       Math_round (fl (hue2rgb fl p q (fl (hh - fl (1 / 3))) * 255)))"
    using ss0 by (simp add: hslToRgb_def Let_def hh_def ss_def ll_def q_def p_def)
  from qp_err [OF std l [folded ll_def] s [folded ss_def] Mm s0 disc q_def p_def]
  have qa: "\<bar>q - M\<bar> \<le> a" and pa: "\<bar>p - m\<bar> \<le> a"
    using u by (simp_all add: a_def)
  have c13: "\<bar>fl (1 / 3) - 1 / 3\<bar> \<le> unit_roundoff * (1 / 3)"
    by (rule fl_abs [OF std]) simp
  have hh: "\<bar>hh - h0\<bar> \<le> 200010 * unit_roundoff" using h by (simp add: hh_def)
  have tG: "\<bar>hh - h0\<bar> \<le> a" using hh u by (simp add: a_def)
  have tR: "\<bar>fl (hh + fl (1 / 3)) - (h0 + 1 / 3)\<bar> \<le> a"
  proof -
    have "\<bar>(hh + fl (1 / 3)) - (h0 + 1 / 3)\<bar> \<le> 200011 * unit_roundoff"
      using hh c13 u by linarith
    moreover have "\<bar>h0 + 1 / 3\<bar> \<le> 2" using h0 by argo
    ultimately have "\<bar>fl (hh + fl (1 / 3)) - (h0 + 1 / 3)\<bar> \<le> 200020 * unit_roundoff"
      by (rule fl_err [OF std]) (simp add: unit_roundoff_def)
    then show ?thesis using u by (simp add: a_def)
  qed
  have tB: "\<bar>fl (hh - fl (1 / 3)) - (h0 - 1 / 3)\<bar> \<le> a"
  proof -
    have "\<bar>(hh - fl (1 / 3)) - (h0 - 1 / 3)\<bar> \<le> 200011 * unit_roundoff"
      using hh c13 u by linarith
    moreover have "\<bar>h0 - 1 / 3\<bar> \<le> 2" using h0 by argo
    ultimately have "\<bar>fl (hh - fl (1 / 3)) - (h0 - 1 / 3)\<bar> \<le> 200020 * unit_roundoff"
      by (rule fl_err [OF std]) (simp add: unit_roundoff_def)
    then show ?thesis using u by (simp add: a_def)
  qed
  have pq: "0 \<le> m" "m \<le> 1" "0 \<le> M" "M \<le> 1" using Mm by simp_all
  have cr: "\<bar>hue2rgb fl p q (fl (hh + fl (1 / 3))) - real_of_int r / 255\<bar> \<le> 150 * a"
    using hue2rgb_close [OF std pa qa tR pq _ _ a] h0 by (simp add: tr)
  have cg: "\<bar>hue2rgb fl p q hh - real_of_int g / 255\<bar> \<le> 150 * a"
    using hue2rgb_close [OF std pa qa tG pq _ _ a] h0 by (simp add: tg)
  have cb: "\<bar>hue2rgb fl p q (fl (hh - fl (1 / 3))) - real_of_int b / 255\<bar> \<le> 150 * a"
    using hue2rgb_close [OF std pa qa tB pq _ _ a] h0 by (simp add: tb)
  show ?thesis
    unfolding res
    using final_channel [OF std cr a' rgb(1,2)] final_channel [OF std cg a' rgb(3,4)]
      final_channel [OF std cb a' rgb(5,6)]
    by simp
qed

subsection \<open>rgbToHsl on bytes\<close>

text \<open>
  Normalising a byte is strictly monotone, so the rounded maximum and minimum are those of
  the bytes and the branches of \<open>rgbToHsl\<close> are the exact ones.
\<close>

lemma channel_le:
  assumes "std_rounding fl" and "0 \<le> a" and "a \<le> b" and "b \<le> 255"
  shows "fl (real_of_int a / 255) \<le> fl (real_of_int b / 255)"
  using channel_mono [OF assms(1,2) _ assms(4)] assms(3) by (cases "a = b") auto

lemma channel_max:
  assumes "std_rounding fl" and "0 \<le> a" and "a \<le> 255" and "0 \<le> b" and "b \<le> 255"
  shows "max (fl (real_of_int a / 255)) (fl (real_of_int b / 255)) = fl (real_of_int (max a b) / 255)"
  using channel_le [OF assms(1), of a b] channel_le [OF assms(1), of b a] assms
  by (auto simp: max_def)

lemma channel_min:
  assumes "std_rounding fl" and "0 \<le> a" and "a \<le> 255" and "0 \<le> b" and "b \<le> 255"
  shows "min (fl (real_of_int a / 255)) (fl (real_of_int b / 255)) = fl (real_of_int (min a b) / 255)"
  using channel_le [OF assms(1), of a b] channel_le [OF assms(1), of b a] assms
  by (auto simp: min_def)

lemma channel_eq_iff:
  assumes "std_rounding fl" and "0 \<le> a" and "a \<le> 255" and "0 \<le> b" and "b \<le> 255"
  shows "fl (real_of_int a / 255) = fl (real_of_int b / 255) \<longleftrightarrow> a = b"
  using channel_mono [OF assms(1), of a b] channel_mono [OF assms(1), of b a] assms
  by (cases a b rule: linorder_cases) auto

lemma channel_less_iff:
  assumes "std_rounding fl" and "0 \<le> a" and "a \<le> 255" and "0 \<le> b" and "b \<le> 255"
  shows "fl (real_of_int a / 255) < fl (real_of_int b / 255) \<longleftrightarrow> a < b"
  using channel_mono [OF assms(1), of a b] channel_le [OF assms(1), of b a] assms
  by (cases "a < b") auto

lemma round_trip_gray:
  assumes std: "std_rounding fl" and n: "0 \<le> n" "n \<le> 255"
    and hsl: "rgbToHsl fl (real_of_int n) (real_of_int n) (real_of_int n) = (H, S, L)"
  shows "hslToRgb fl H S L = (n, n, n)"
proof -
  note u = eps_pos eps_small
  define x where "x = fl (real_of_int n / 255)"
  define lf where "lf = fl (fl (x + x) / 2)"
  have z: "fl 0 = 0" by (rule fl_zero [OF std])
  from hsl have H: "H = 0" and S: "S = 0" and L: "L = fl (lf * 100)"
    by (simp_all add: rgbToHsl_def Let_def x_def lf_def z)
  have x: "\<bar>x - real_of_int n / 255\<bar> \<le> unit_roundoff"
    unfolding x_def using std n by (rule channel_err)
  have "\<bar>lf - (real_of_int n / 255 + real_of_int n / 255) / 2\<bar> \<le> 5 * unit_roundoff"
    unfolding lf_def using std x x by (rule lightness_err) (use n in simp_all)
  then have lf: "\<bar>lf - real_of_int n / 255\<bar> \<le> 5 * unit_roundoff" by simp
  have "\<bar>fl (fl (lf * 100) / 100) - real_of_int n / 255\<bar> \<le> 5 * unit_roundoff + 5 * unit_roundoff"
    using std lf by (rule scale_round_trip) (use n u in simp_all)
  then have c: "\<bar>fl (L / 100) - real_of_int n / 255\<bar> \<le> 10 * unit_roundoff"
    by (simp add: L)
  have e: "10 * unit_roundoff \<le> 1 / 1000000" by (simp add: unit_roundoff_def)
  have "hslToRgb fl H S L =
          (Math_round (fl (fl (L / 100) * 255)), Math_round (fl (fl (L / 100) * 255)),
           Math_round (fl (fl (L / 100) * 255)))"
    by (simp add: hslToRgb_def Let_def H S z)
  then show ?thesis using final_channel [OF std c e n] by simp
qed

lemma tent_wrap_values:
  fixes w :: real
  assumes "- 1 \<le> w" and "w \<le> 1"
  shows "0 \<le> w \<Longrightarrow> tent (wrap (w / 6 + 1 / 3)) = 1"
    and "0 \<le> w \<Longrightarrow> tent (wrap (w / 6)) = max 0 w"
    and "0 \<le> w \<Longrightarrow> tent (wrap (w / 6 - 1 / 3)) = max 0 (- w)"
    and "w < 0 \<Longrightarrow> tent (wrap ((w + 6) / 6 + 1 / 3)) = 1"
    and "w < 0 \<Longrightarrow> tent (wrap ((w + 6) / 6)) = max 0 w"
    and "w < 0 \<Longrightarrow> tent (wrap ((w + 6) / 6 - 1 / 3)) = max 0 (- w)"
    and "tent (wrap ((w + 2) / 6 + 1 / 3)) = max 0 (- w)"
    and "tent (wrap ((w + 2) / 6)) = 1"
    and "tent (wrap ((w + 2) / 6 - 1 / 3)) = max 0 w"
    and "tent (wrap ((w + 4) / 6 + 1 / 3)) = max 0 w"
    and "tent (wrap ((w + 4) / 6)) = max 0 (- w)"
    and "tent (wrap ((w + 4) / 6 - 1 / 3)) = 1"
  using assms unfolding tent_def wrap_def by argo+

lemma rgbToHsl_coloured:
  assumes std: "std_rounding fl"
    and rgb: "0 \<le> r" "r \<le> 255" "0 \<le> g" "g \<le> 255" "0 \<le> b" "b \<le> 255"
    and col: "min (min r g) b < max (max r g) b"
    and hsl: "rgbToHsl fl (real_of_int r) (real_of_int g) (real_of_int b) = (H, S, L)"
  obtains h0 s0 M m where
    "\<bar>fl (H / 360) - h0\<bar> \<le> 200010 * unit_roundoff"
    "\<bar>fl (S / 100) - s0\<bar> \<le> 1200000 * unit_roundoff"
    "\<bar>fl (L / 100) - (M + m) / 2\<bar> \<le> 20 * unit_roundoff"
    "0 \<le> m" "m < M" "M \<le> 1" "1 / 255 \<le> M - m"
    "s0 = (if M + m > 1 then (M - m) / (2 - M - m) else (M - m) / (M + m))"
    "M + m = 1 \<or> 1 + 1 / 255 \<le> M + m \<or> M + m \<le> 1 - 1 / 255"
    "0 \<le> h0" "h0 \<le> 1"
    "m + (M - m) * tent (wrap (h0 + 1 / 3)) = real_of_int r / 255"
    "m + (M - m) * tent (wrap h0) = real_of_int g / 255"
    "m + (M - m) * tent (wrap (h0 - 1 / 3)) = real_of_int b / 255"
proof -
  note u = eps_pos eps_small
  define Mi where "Mi = max (max r g) b"
  define mi where "mi = min (min r g) b"
  define M where "M = real_of_int Mi / 255"
  define m where "m = real_of_int mi / 255"
  let ?x = "fl (real_of_int r / 255)"
  let ?y = "fl (real_of_int g / 255)"
  let ?z = "fl (real_of_int b / 255)"
  define mx where "mx = fl (real_of_int Mi / 255)"
  define mn where "mn = fl (real_of_int mi / 255)"
  have Mi: "0 \<le> Mi" "Mi \<le> 255" and mi: "0 \<le> mi" "mi \<le> 255" and lt: "mi < Mi"
    using rgb col by (simp_all add: Mi_def mi_def)
  have mx_eq: "max (max ?x ?y) ?z = mx"
    using rgb by (simp add: channel_max [OF std] mx_def Mi_def)
  have mn_eq: "min (min ?x ?y) ?z = mn"
    using rgb by (simp add: channel_min [OF std] mn_def mi_def)
  have ne: "mx \<noteq> mn"
    using channel_eq_iff [OF std Mi mi] lt by (simp add: mx_def mn_def)
  define lf where "lf = fl (fl (mx + mn) / 2)"
  define df where "df = fl (mx - mn)"
  define sf where "sf = (if lf > 0.5 then fl (df / fl (fl (2 - mx) - mn))
                         else fl (df / fl (mx + mn)))"
  define hf where "hf = (if mx = ?x then fl (fl (fl (fl (?y - ?z) / df) + (if ?y < ?z then 6 else 0)) / 6)
                         else if mx = ?y then fl (fl (fl (fl (?z - ?x) / df) + 2) / 6)
                         else fl (fl (fl (fl (?x - ?y) / df) + 4) / 6))"
  have "rgbToHsl fl (real_of_int r) (real_of_int g) (real_of_int b)
          = (fl (hf * 360), fl (sf * 100), fl (lf * 100))"
    by (simp add: rgbToHsl_def Let_def mx_eq mn_eq ne hf_def sf_def lf_def df_def)
  with hsl have H: "H = fl (hf * 360)" and S: "S = fl (sf * 100)" and L: "L = fl (lf * 100)"
    by simp_all
  have Mm: "0 \<le> m" "m < M" "M \<le> 1" and gap: "1 / 255 \<le> M - m"
    using Mi mi lt by (simp_all add: M_def m_def field_simps)
  have disc: "M + m = 1 \<or> 1 + 1 / 255 \<le> M + m \<or> M + m \<le> 1 - 1 / 255"
  proof -
    have "Mi + mi = 255 \<or> 256 \<le> Mi + mi \<or> Mi + mi \<le> 254" by linarith
    then have "real_of_int (Mi + mi) = 255 \<or> 256 \<le> real_of_int (Mi + mi)
               \<or> real_of_int (Mi + mi) \<le> 254"
      by (metis of_int_le_iff of_int_numeral)
    then show ?thesis unfolding M_def m_def of_int_add by argo
  qed
  have top: "M + m \<le> 2 - 1 / 255"
  proof -
    have "Mi + mi \<le> 509" using Mi mi lt by linarith
    then have "real_of_int (Mi + mi) \<le> 509" by (metis of_int_le_iff of_int_numeral)
    then show ?thesis unfolding M_def m_def of_int_add by argo
  qed
  have bot: "1 / 255 \<le> M + m" using Mm gap by linarith
  have MX: "\<bar>mx - M\<bar> \<le> unit_roundoff"
    unfolding mx_def M_def using std Mi by (rule channel_err)
  have MN: "\<bar>mn - m\<bar> \<le> unit_roundoff"
    unfolding mn_def m_def using std mi by (rule channel_err)
  have lf: "\<bar>lf - (M + m) / 2\<bar> \<le> 5 * unit_roundoff"
    unfolding lf_def using std MX MN by (rule lightness_err) (use Mm in simp_all)
  have df: "\<bar>df - (M - m)\<bar> \<le> 4 * unit_roundoff"
    unfolding df_def using std MX MN by (rule diff_err) (use Mm in simp_all)
  define s0 where "s0 = (if M + m > 1 then (M - m) / (2 - M - m) else (M - m) / (M + m))"
  have sf: "\<bar>sf - s0\<bar> \<le> 1100000 * unit_roundoff"
  proof (cases "lf > 0.5")
    case True
    then have "1 - 1 / 255 < M + m" using lf u by argo
    with disc have ge: "1 \<le> M + m" by linarith
    have s0': "s0 = (M - m) / (2 - M - m)"
    proof (cases "M + m = 1")
      case True
      then have "2 - M - m = M + m" by simp
      then show ?thesis by (simp add: s0_def)
    next
      case False
      with ge show ?thesis by (simp add: s0_def)
    qed
    have "\<bar>(2 - mx) - (2 - M)\<bar> \<le> unit_roundoff" using MX by simp
    moreover have "\<bar>2 - M\<bar> \<le> 2" using Mm by simp
    ultimately have "\<bar>fl (2 - mx) - (2 - M)\<bar> \<le> 4 * unit_roundoff"
      by (rule fl_err [OF std]) (simp add: unit_roundoff_def)
    with MN have "\<bar>(fl (2 - mx) - mn) - (2 - M - m)\<bar> \<le> 5 * unit_roundoff" by linarith
    moreover have "\<bar>2 - M - m\<bar> \<le> 2" using Mm by simp
    ultimately have den: "\<bar>fl (fl (2 - mx) - mn) - (2 - M - m)\<bar> \<le> 8 * unit_roundoff"
      by (rule fl_err [OF std]) (simp add: unit_roundoff_def)
    have "\<bar>fl (df / fl (fl (2 - mx) - mn)) - (M - m) / (2 - M - m)\<bar> \<le> 1100000 * unit_roundoff"
      using std df den by (rule quotient_err) (use Mm top in simp_all)
    then show ?thesis using True by (simp add: sf_def s0')
  next
    case False
    then have "M + m < 1 + 1 / 255" using lf u by argo
    with disc have le: "M + m \<le> 1" by linarith
    then have s0': "s0 = (M - m) / (M + m)" by (simp add: s0_def)
    have "\<bar>(mx + mn) - (M + m)\<bar> \<le> 2 * unit_roundoff" using MX MN by linarith
    moreover have "\<bar>M + m\<bar> \<le> 2" using Mm by simp
    ultimately have "\<bar>fl (mx + mn) - (M + m)\<bar> \<le> 5 * unit_roundoff"
      by (rule fl_err [OF std]) (simp add: unit_roundoff_def)
    then have den: "\<bar>fl (mx + mn) - (M + m)\<bar> \<le> 8 * unit_roundoff" using u by linarith
    have "\<bar>fl (df / fl (mx + mn)) - (M - m) / (M + m)\<bar> \<le> 1100000 * unit_roundoff"
      using std df den by (rule quotient_err) (use Mm bot in simp_all)
    then show ?thesis using False by (simp add: sf_def s0')
  qed
  have s0r: "0 < s0" "s0 \<le> 1"
    using sat_exact_range [OF Mm s0_def] by simp_all
  have s: "\<bar>fl (S / 100) - s0\<bar> \<le> 1200000 * unit_roundoff"
  proof -
    have "\<bar>fl (fl (sf * 100) / 100) - s0\<bar> \<le> 1100000 * unit_roundoff + 5 * unit_roundoff"
      using std sf by (rule scale_round_trip) (use s0r in \<open>simp_all add: unit_roundoff_def\<close>)
    then show ?thesis using u by (simp add: S)
  qed
  have l: "\<bar>fl (L / 100) - (M + m) / 2\<bar> \<le> 20 * unit_roundoff"
  proof -
    have "\<bar>fl (fl (lf * 100) / 100) - (M + m) / 2\<bar> \<le> 5 * unit_roundoff + 5 * unit_roundoff"
      using std lf by (rule scale_round_trip) (use Mm in \<open>simp_all add: unit_roundoff_def\<close>)
    then show ?thesis using u by (simp add: L)
  qed
  have hround: "\<bar>fl (H / 360) - h0\<bar> \<le> 200010 * unit_roundoff"
    if "\<bar>hf - h0\<bar> \<le> 200000 * unit_roundoff" "0 \<le> h0" "h0 \<le> 1" for h0
  proof -
    have "\<bar>fl (fl (hf * 360) / 360) - h0\<bar> \<le> 200000 * unit_roundoff + 5 * unit_roundoff"
      using std that(1) by (rule scale_round_trip) (use that in \<open>simp_all add: unit_roundoff_def\<close>)
    then show ?thesis using u by (simp add: H)
  qed
  define \<rho> where "\<rho> = real_of_int r / 255"
  define \<gamma> where "\<gamma> = real_of_int g / 255"
  define \<beta> where "\<beta> = real_of_int b / 255"
  have X: "\<bar>?x - \<rho>\<bar> \<le> unit_roundoff" unfolding \<rho>_def using std rgb(1,2) by (rule channel_err)
  have Y: "\<bar>?y - \<gamma>\<bar> \<le> unit_roundoff" unfolding \<gamma>_def using std rgb(3,4) by (rule channel_err)
  have Z: "\<bar>?z - \<beta>\<bar> \<le> unit_roundoff" unfolding \<beta>_def using std rgb(5,6) by (rule channel_err)
  have ch: "0 \<le> \<rho>" "\<rho> \<le> 1" "0 \<le> \<gamma>" "\<gamma> \<le> 1" "0 \<le> \<beta>" "\<beta> \<le> 1"
    using rgb by (simp_all add: \<rho>_def \<gamma>_def \<beta>_def)
  have M_max: "M = max (max \<rho> \<gamma>) \<beta>" and m_min: "m = min (min \<rho> \<gamma>) \<beta>"
    by (simp_all add: M_def m_def Mi_def mi_def \<rho>_def \<gamma>_def \<beta>_def max_def min_def
        divide_right_mono)
  have d0: "0 < M - m" "M - m \<le> 1" using Mm by simp_all
  have Mi_cases: "Mi = r \<or> Mi = g \<or> Mi = b" by (auto simp: Mi_def max_def)
  have le_M: "\<rho> \<le> M" "\<gamma> \<le> M" "\<beta> \<le> M" by (simp_all add: M_max)
  consider (red) "mx = ?x" | (green) "mx \<noteq> ?x" "mx = ?y" | (blue) "mx \<noteq> ?x" "mx \<noteq> ?y"
    by blast
  then show ?thesis
  proof cases
    case red
    then have "Mi = r" using channel_eq_iff [OF std Mi rgb(1,2)] by (simp add: mx_def)
    then have MR: "M = \<rho>" by (simp add: M_def \<rho>_def)
    have mm: "m = min \<gamma> \<beta>" using le_M MR by (simp add: m_min min_def)
    define w where "w = (\<gamma> - \<beta>) / (M - m)"
    note em = exact_mix [OF le_M(2) le_M(3) mm refl d0(1) w_def]
    define c :: real where "c = (if ?y < ?z then 6 else 0)"
    have hf': "hf = fl (fl (fl (fl (?y - ?z) / df) + c) / 6)"
      using red by (simp add: hf_def c_def)
    have "\<bar>\<gamma> - \<beta>\<bar> \<le> M - m" using le_M mm by argo
    with std Y Z ch(3-6) df gap
    have hf: "\<bar>hf - ((\<gamma> - \<beta>) / (M - m) + c) / 6\<bar> \<le> 200000 * unit_roundoff"
      unfolding hf' by (rule hue_err) (use d0 in \<open>simp_all add: c_def\<close>)
    show ?thesis
    proof (cases "?y < ?z")
      case True
      then have "g < b" using channel_less_iff [OF std rgb(3-6)] by simp
      then have "\<gamma> < \<beta>" by (simp add: \<gamma>_def \<beta>_def)
      then have wneg: "w < 0" using d0 by (simp add: w_def divide_neg_pos)
      have c6: "c = 6" using True by (simp add: c_def)
      define h0 where "h0 = (w + 6) / 6"
      have hf0: "\<bar>hf - h0\<bar> \<le> 200000 * unit_roundoff"
        using hf by (simp add: h0_def w_def c6)
      have h0r: "0 \<le> h0" "h0 \<le> 1" using em(1) wneg unfolding h0_def by argo+
      note tw = tent_wrap_values(4-6) [OF em(1,2) wneg, folded h0_def]
      show ?thesis
      proof (rule that [OF hround [OF hf0 h0r] s l Mm gap s0_def disc h0r])
        show "m + (M - m) * tent (wrap (h0 + 1 / 3)) = real_of_int r / 255"
          "m + (M - m) * tent (wrap h0) = real_of_int g / 255"
          "m + (M - m) * tent (wrap (h0 - 1 / 3)) = real_of_int b / 255"
          by (simp_all add: tw em MR [symmetric] \<rho>_def [symmetric] \<gamma>_def [symmetric]
              \<beta>_def [symmetric])
      qed
    next
      case False
      then have "\<not> g < b" using channel_less_iff [OF std rgb(3-6)] by simp
      then have "\<beta> \<le> \<gamma>" by (simp add: \<gamma>_def \<beta>_def divide_right_mono)
      then have wpos: "0 \<le> w" using d0 by (simp add: w_def)
      have c0: "c = 0" using False by (simp add: c_def)
      define h0 where "h0 = w / 6"
      have hf0: "\<bar>hf - h0\<bar> \<le> 200000 * unit_roundoff"
        using hf by (simp add: h0_def w_def c0)
      have h0r: "0 \<le> h0" "h0 \<le> 1" using em(2) wpos unfolding h0_def by argo+
      note tw = tent_wrap_values(1-3) [OF em(1,2) wpos, folded h0_def]
      show ?thesis
      proof (rule that [OF hround [OF hf0 h0r] s l Mm gap s0_def disc h0r])
        show "m + (M - m) * tent (wrap (h0 + 1 / 3)) = real_of_int r / 255"
          "m + (M - m) * tent (wrap h0) = real_of_int g / 255"
          "m + (M - m) * tent (wrap (h0 - 1 / 3)) = real_of_int b / 255"
          by (simp_all add: tw em MR [symmetric] \<rho>_def [symmetric] \<gamma>_def [symmetric]
              \<beta>_def [symmetric])
      qed
    qed
  next
    case green
    then have "Mi = g" using channel_eq_iff [OF std Mi rgb(3,4)] by (simp add: mx_def)
    then have MG: "M = \<gamma>" by (simp add: M_def \<gamma>_def)
    have mm: "m = min \<beta> \<rho>" using le_M MG by (simp add: m_min min_def)
    define w where "w = (\<beta> - \<rho>) / (M - m)"
    note em = exact_mix [OF le_M(3) le_M(1) mm refl d0(1) w_def]
    have hf': "hf = fl (fl (fl (fl (?z - ?x) / df) + 2) / 6)"
      using green by (simp add: hf_def)
    have "\<bar>\<beta> - \<rho>\<bar> \<le> M - m" using le_M mm by argo
    with std Z X ch(5,6,1,2) df gap
    have hf: "\<bar>hf - ((\<beta> - \<rho>) / (M - m) + 2) / 6\<bar> \<le> 200000 * unit_roundoff"
      unfolding hf' by (rule hue_err) (use d0 in simp_all)
    define h0 where "h0 = (w + 2) / 6"
    have hf0: "\<bar>hf - h0\<bar> \<le> 200000 * unit_roundoff"
      using hf by (simp add: h0_def w_def)
    have h0r: "0 \<le> h0" "h0 \<le> 1" using em(1,2) unfolding h0_def by argo+
    note tw = tent_wrap_values(7-9) [OF em(1,2), folded h0_def]
    show ?thesis
    proof (rule that [OF hround [OF hf0 h0r] s l Mm gap s0_def disc h0r])
      show "m + (M - m) * tent (wrap (h0 + 1 / 3)) = real_of_int r / 255"
        "m + (M - m) * tent (wrap h0) = real_of_int g / 255"
        "m + (M - m) * tent (wrap (h0 - 1 / 3)) = real_of_int b / 255"
        by (simp_all add: tw em MG [symmetric] \<rho>_def [symmetric] \<gamma>_def [symmetric]
            \<beta>_def [symmetric])
    qed
  next
    case blue
    then have "Mi \<noteq> r" "Mi \<noteq> g"
      using channel_eq_iff [OF std Mi rgb(1,2)] channel_eq_iff [OF std Mi rgb(3,4)]
      by (simp_all add: mx_def)
    with Mi_cases have "Mi = b" by simp
    then have MB: "M = \<beta>" by (simp add: M_def \<beta>_def)
    have mm: "m = min \<rho> \<gamma>" using le_M MB by (simp add: m_min min_def)
    define w where "w = (\<rho> - \<gamma>) / (M - m)"
    note em = exact_mix [OF le_M(1) le_M(2) mm refl d0(1) w_def]
    have hf': "hf = fl (fl (fl (fl (?x - ?y) / df) + 4) / 6)"
      using blue by (simp add: hf_def)
    have "\<bar>\<rho> - \<gamma>\<bar> \<le> M - m" using le_M mm by argo
    with std X Y ch(1-4) df gap
    have hf: "\<bar>hf - ((\<rho> - \<gamma>) / (M - m) + 4) / 6\<bar> \<le> 200000 * unit_roundoff"
      unfolding hf' by (rule hue_err) (use d0 in simp_all)
    define h0 where "h0 = (w + 4) / 6"
    have hf0: "\<bar>hf - h0\<bar> \<le> 200000 * unit_roundoff"
      using hf by (simp add: h0_def w_def)
    have h0r: "0 \<le> h0" "h0 \<le> 1" using em(1,2) unfolding h0_def by argo+
    note tw = tent_wrap_values(10-12) [OF em(1,2), folded h0_def]
    show ?thesis
    proof (rule that [OF hround [OF hf0 h0r] s l Mm gap s0_def disc h0r])
      show "m + (M - m) * tent (wrap (h0 + 1 / 3)) = real_of_int r / 255"
        "m + (M - m) * tent (wrap h0) = real_of_int g / 255"
        "m + (M - m) * tent (wrap (h0 - 1 / 3)) = real_of_int b / 255"
        by (simp_all add: tw em MB [symmetric] \<rho>_def [symmetric] \<gamma>_def [symmetric]
            \<beta>_def [symmetric])
    qed
  qed
qed


lemma round_trip_coloured:
  assumes std: "std_rounding fl"
    and rgb: "0 \<le> r" "r \<le> 255" "0 \<le> g" "g \<le> 255" "0 \<le> b" "b \<le> 255"
    and col: "min (min r g) b < max (max r g) b"
    and hsl: "rgbToHsl fl (real_of_int r) (real_of_int g) (real_of_int b) = (H, S, L)"
  shows "hslToRgb fl H S L = (r, g, b)"
proof -
  from rgbToHsl_coloured [OF std rgb col hsl] obtain h0 s0 M m where
    f: "\<bar>fl (H / 360) - h0\<bar> \<le> 200010 * unit_roundoff"
    "\<bar>fl (S / 100) - s0\<bar> \<le> 1200000 * unit_roundoff"
    "\<bar>fl (L / 100) - (M + m) / 2\<bar> \<le> 20 * unit_roundoff"
    "0 \<le> m" "m < M" "M \<le> 1" "1 / 255 \<le> M - m"
    "s0 = (if M + m > 1 then (M - m) / (2 - M - m) else (M - m) / (M + m))"
    "M + m = 1 \<or> 1 + 1 / 255 \<le> M + m \<or> M + m \<le> 1 - 1 / 255"
    "0 \<le> h0" "h0 \<le> 1"
    "m + (M - m) * tent (wrap (h0 + 1 / 3)) = real_of_int r / 255"
    "m + (M - m) * tent (wrap h0) = real_of_int g / 255"
    "m + (M - m) * tent (wrap (h0 - 1 / 3)) = real_of_int b / 255"
    by blast
  from hslToRgb_exact_result [OF std f rgb] show ?thesis .
qed

subsection \<open>The channels of hslToRgb are bytes\<close>

lemma convex_unit:
  fixes p q \<theta> :: real
  assumes "0 \<le> p" "p \<le> 1" "0 \<le> q" "q \<le> 1" "0 \<le> \<theta>" "\<theta> \<le> 1"
  shows "0 \<le> p + (q - p) * \<theta>" and "p + (q - p) * \<theta> \<le> 1"
proof -
  have eq: "p + (q - p) * \<theta> = (1 - \<theta>) * p + \<theta> * q" by (simp add: algebra_simps)
  have a: "0 \<le> (1 - \<theta>) * p" "0 \<le> \<theta> * q" using assms by simp_all
  have b: "(1 - \<theta>) * p \<le> 1 - \<theta>" "\<theta> * q \<le> \<theta>"
    using mult_left_mono [of p 1 "1 - \<theta>"] mult_left_mono [of q 1 \<theta>] assms by simp_all
  show "0 \<le> p + (q - p) * \<theta>" using a eq by linarith
  show "p + (q - p) * \<theta> \<le> 1" using b eq by linarith
qed

lemma round_byte:
  assumes "- 1 / 2 \<le> x" and "x < 255 + 1 / 2"
  shows "0 \<le> Math_round x" and "Math_round x \<le> 255"
proof -
  have "0 \<le> x + 1 / 2" "x + 1 / 2 < 256" using assms by linarith+
  then show "0 \<le> Math_round x" "Math_round x \<le> 255"
    unfolding Math_round_def by (simp_all add: floor_less_iff)
qed

lemma channel_byte:
  assumes std: "std_rounding fl" and c: "\<bar>c - c0\<bar> \<le> e" and c0: "0 \<le> c0" "c0 \<le> 1"
    and e: "e \<le> 1 / 1000000"
  shows "0 \<le> Math_round (fl (c * 255))" and "Math_round (fl (c * 255)) \<le> 255"
proof -
  note u = eps_pos eps_small
  have "\<bar>c * 255 - c0 * 255\<bar> \<le> e * 255"
    using c by (rule err_mult_const) simp_all
  then have "\<bar>c * 255 - c0 * 255\<bar> \<le> 255 / 1000000" using e by simp
  moreover have "\<bar>c0 * 255\<bar> \<le> 255" using c0 by simp
  ultimately have "\<bar>fl (c * 255) - c0 * 255\<bar> \<le> 1 / 1000"
    by (rule fl_err [OF std]) (simp add: unit_roundoff_def)
  then have "- 1 / 2 \<le> fl (c * 255)" "fl (c * 255) < 255 + 1 / 2"
    using c0 by argo+
  then show "0 \<le> Math_round (fl (c * 255))" and "Math_round (fl (c * 255)) \<le> 255"
    by (rule round_byte)+
qed

lemma qp_range:
  assumes std: "std_rounding fl"
    and l: "\<bar>l - lh\<bar> \<le> 1200000 * unit_roundoff" and lh: "0 \<le> lh" "lh \<le> 1"
    and s: "\<bar>s - sh\<bar> \<le> 1200000 * unit_roundoff" and sh: "- 1 \<le> sh" "sh \<le> 1"
    and q: "q = (if l < 0.5 then fl (l * fl (1 + s)) else fl (fl (l + s) - fl (l * s)))"
    and p: "p = fl (fl (2 * l) - q)"
  shows "\<exists>p0 q0. 0 \<le> p0 \<and> p0 \<le> 1 \<and> 0 \<le> q0 \<and> q0 \<le> 1 \<and>
           \<bar>p - p0\<bar> \<le> 10000000 * unit_roundoff \<and> \<bar>q - q0\<bar> \<le> 10000000 * unit_roundoff"
proof -
  note u = eps_pos eps_small
  have eta: "1200000 * unit_roundoff \<le> 1 / 1000000" by (simp add: unit_roundoff_def)
  have shb: "\<bar>sh\<bar> \<le> 1" using sh by simp
  show ?thesis
  proof (cases "l < 0.5")
    case True
    define lt where "lt = min lh (1 / 2)"
    have lt: "\<bar>l - lt\<bar> \<le> 1200000 * unit_roundoff" "0 \<le> lt" "lt \<le> 1 / 2"
      using l lh True unfolding lt_def by argo+
    have ltb: "\<bar>lt\<bar> \<le> 1" using lt by simp
    define q0 where "q0 = lt * (1 + sh)"
    define p0 where "p0 = lt * (1 - sh)"
    have q0r: "0 \<le> q0" "q0 \<le> 1"
    proof -
      show "0 \<le> q0" unfolding q0_def using lt sh by simp
      have "lt * (1 + sh) \<le> (1 / 2) * 2" using lt sh by (intro mult_mono) simp_all
      then show "q0 \<le> 1" by (simp add: q0_def)
    qed
    have p0r: "0 \<le> p0" "p0 \<le> 1"
    proof -
      show "0 \<le> p0" unfolding p0_def using lt sh by simp
      have "lt * (1 - sh) \<le> (1 / 2) * 2" using lt sh by (intro mult_mono) simp_all
      then show "p0 \<le> 1" by (simp add: p0_def)
    qed
    have "\<bar>(1 + s) - (1 + sh)\<bar> \<le> 1200000 * unit_roundoff" using s by simp
    moreover have b1: "\<bar>1 + sh\<bar> \<le> 2" using sh by simp
    ultimately have f1: "\<bar>fl (1 + s) - (1 + sh)\<bar> \<le> 1200010 * unit_roundoff"
      by (rule fl_err [OF std]) (simp add: unit_roundoff_def)
    from lt(1) f1 ltb b1
    have "\<bar>l * fl (1 + s) - lt * (1 + sh)\<bar> \<le> 3700000 * unit_roundoff"
      by (rule err_mult) (simp add: unit_roundoff_def)
    moreover have "\<bar>lt * (1 + sh)\<bar> \<le> 1" using q0r by (simp add: q0_def)
    ultimately have "\<bar>fl (l * fl (1 + s)) - lt * (1 + sh)\<bar> \<le> 3700010 * unit_roundoff"
      by (rule fl_err [OF std]) (simp add: unit_roundoff_def)
    then have qq: "\<bar>q - q0\<bar> \<le> 3700010 * unit_roundoff" using True by (simp add: q q0_def)
    have "\<bar>2 * l - 2 * lt\<bar> \<le> 2400000 * unit_roundoff" using lt(1) by linarith
    moreover have "\<bar>2 * lt\<bar> \<le> 2" using lt by simp
    ultimately have g1: "\<bar>fl (2 * l) - 2 * lt\<bar> \<le> 2400010 * unit_roundoff"
      by (rule fl_err [OF std]) (simp add: unit_roundoff_def)
    have "2 * lt - q0 = p0" by (simp add: q0_def p0_def algebra_simps)
    with g1 qq have "\<bar>(fl (2 * l) - q) - p0\<bar> \<le> 6100020 * unit_roundoff" by linarith
    moreover have "\<bar>p0\<bar> \<le> 1" using p0r by simp
    ultimately have "\<bar>fl (fl (2 * l) - q) - p0\<bar> \<le> 6100030 * unit_roundoff"
      by (rule fl_err [OF std]) (simp add: unit_roundoff_def)
    then have pp: "\<bar>p - p0\<bar> \<le> 10000000 * unit_roundoff" using u by (simp add: p)
    from qq u have "\<bar>q - q0\<bar> \<le> 10000000 * unit_roundoff" by linarith
    with pp p0r q0r show ?thesis by blast
  next
    case False
    define lt where "lt = max lh (1 / 2)"
    have lt: "\<bar>l - lt\<bar> \<le> 1200000 * unit_roundoff" "1 / 2 \<le> lt" "lt \<le> 1"
      using l lh False unfolding lt_def by argo+
    have ltb: "\<bar>lt\<bar> \<le> 1" using lt by simp
    define k where "k = sh * (1 - lt)"
    have kb: "\<bar>k\<bar> \<le> 1 - lt"
    proof -
      have "\<bar>sh * (1 - lt)\<bar> \<le> 1 * (1 - lt)"
        using shb by (rule abs_mult_le) (use lt in simp)
      then show ?thesis by (simp add: k_def)
    qed
    define q0 where "q0 = lt + k"
    define p0 where "p0 = lt - k"
    have q0r: "0 \<le> q0" "q0 \<le> 1" and p0r: "0 \<le> p0" "p0 \<le> 1"
      using kb lt unfolding q0_def p0_def by argo+
    have qe: "lt + sh - lt * sh = q0" by (simp add: q0_def k_def algebra_simps)
    have "\<bar>(l + s) - (lt + sh)\<bar> \<le> 2400000 * unit_roundoff" using lt(1) s by linarith
    moreover have "\<bar>lt + sh\<bar> \<le> 2" using ltb shb by linarith
    ultimately have f1: "\<bar>fl (l + s) - (lt + sh)\<bar> \<le> 2400010 * unit_roundoff"
      by (rule fl_err [OF std]) (simp add: unit_roundoff_def)
    from lt(1) s ltb shb
    have "\<bar>l * s - lt * sh\<bar> \<le> 2400010 * unit_roundoff"
      by (rule err_mult) (simp add: unit_roundoff_def)
    moreover have "\<bar>lt * sh\<bar> \<le> 1" using abs_mult_le [OF ltb shb] by simp
    ultimately have f2: "\<bar>fl (l * s) - lt * sh\<bar> \<le> 2400020 * unit_roundoff"
      by (rule fl_err [OF std]) (simp add: unit_roundoff_def)
    from f1 f2 have "\<bar>(fl (l + s) - fl (l * s)) - (lt + sh - lt * sh)\<bar> \<le> 4800030 * unit_roundoff"
      by linarith
    then have "\<bar>(fl (l + s) - fl (l * s)) - q0\<bar> \<le> 4800030 * unit_roundoff" by (simp add: qe)
    moreover have "\<bar>q0\<bar> \<le> 1" using q0r by simp
    ultimately have "\<bar>fl (fl (l + s) - fl (l * s)) - q0\<bar> \<le> 4800040 * unit_roundoff"
      by (rule fl_err [OF std]) (simp add: unit_roundoff_def)
    then have qq: "\<bar>q - q0\<bar> \<le> 4800040 * unit_roundoff" using False by (simp add: q)
    have "\<bar>2 * l - 2 * lt\<bar> \<le> 2400000 * unit_roundoff" using lt(1) by linarith
    moreover have "\<bar>2 * lt\<bar> \<le> 2" using lt by simp
    ultimately have g1: "\<bar>fl (2 * l) - 2 * lt\<bar> \<le> 2400010 * unit_roundoff"
      by (rule fl_err [OF std]) (simp add: unit_roundoff_def)
    have "2 * lt - q0 = p0" by (simp add: q0_def p0_def)
    with g1 qq have "\<bar>(fl (2 * l) - q) - p0\<bar> \<le> 7200050 * unit_roundoff" by linarith
    moreover have "\<bar>p0\<bar> \<le> 1" using p0r by simp
    ultimately have "\<bar>fl (fl (2 * l) - q) - p0\<bar> \<le> 7200060 * unit_roundoff"
      by (rule fl_err [OF std]) (simp add: unit_roundoff_def)
    then have pp: "\<bar>p - p0\<bar> \<le> 10000000 * unit_roundoff" using u by (simp add: p)
    from qq u have "\<bar>q - q0\<bar> \<le> 10000000 * unit_roundoff" by linarith
    with pp p0r q0r show ?thesis by blast
  qed
qed

lemma hslToRgb_range:
  assumes std: "std_rounding fl"
    and h: "\<bar>fl (H / 360) - hh0\<bar> \<le> 1200000 * unit_roundoff" and hh0: "- 1 / 2 \<le> hh0" "hh0 \<le> 1"
    and s: "\<bar>fl (S / 100) - sh\<bar> \<le> 1200000 * unit_roundoff" and sh: "- 1 \<le> sh" "sh \<le> 1"
    and l: "\<bar>fl (L / 100) - lh\<bar> \<le> 1200000 * unit_roundoff" and lh: "0 \<le> lh" "lh \<le> 1"
    and res: "hslToRgb fl H S L = (R, G, B)"
  shows "0 \<le> R \<and> R \<le> 255 \<and> 0 \<le> G \<and> G \<le> 255 \<and> 0 \<le> B \<and> B \<le> 255"
proof -
  note u = eps_pos eps_small
  define hh where "hh = fl (H / 360)"
  define ss where "ss = fl (S / 100)"
  define ll where "ll = fl (L / 100)"
  show ?thesis
  proof (cases "ss = 0")
    case True
    have eta: "1200000 * unit_roundoff \<le> 1 / 1000000" by (simp add: unit_roundoff_def)
    have "hslToRgb fl H S L =
            (Math_round (fl (ll * 255)), Math_round (fl (ll * 255)), Math_round (fl (ll * 255)))"
      using True by (simp add: hslToRgb_def Let_def ss_def ll_def)
    with res have "R = Math_round (fl (ll * 255))" "G = Math_round (fl (ll * 255))"
      "B = Math_round (fl (ll * 255))" by simp_all
    then show ?thesis
      using channel_byte [OF std l [folded ll_def] lh eta] by simp
  next
    case False
    define a where "a = 10000000 * unit_roundoff"
    have a: "unit_roundoff \<le> a" "a \<le> 1 / 1000" and a': "150 * a \<le> 1 / 1000000"
      by (simp_all add: a_def unit_roundoff_def)
    define q where "q = (if ll < 0.5 then fl (ll * fl (1 + ss)) else fl (fl (ll + ss) - fl (ll * ss)))"
    define p where "p = fl (fl (2 * ll) - q)"
    have eq: "hslToRgb fl H S L =
        (Math_round (fl (hue2rgb fl p q (fl (hh + fl (1 / 3))) * 255)),
         Math_round (fl (hue2rgb fl p q hh * 255)),
         Math_round (fl (hue2rgb fl p q (fl (hh - fl (1 / 3))) * 255)))"
      using False by (simp add: hslToRgb_def Let_def hh_def ss_def ll_def q_def p_def)
    from qp_range [OF std l [folded ll_def] lh s [folded ss_def] sh q_def p_def]
    obtain p0 q0 where pq: "0 \<le> p0" "p0 \<le> 1" "0 \<le> q0" "q0 \<le> 1"
      and pa: "\<bar>p - p0\<bar> \<le> a" and qa: "\<bar>q - q0\<bar> \<le> a"
      by (auto simp: a_def)
    have c13: "\<bar>fl (1 / 3) - 1 / 3\<bar> \<le> unit_roundoff * (1 / 3)"
      by (rule fl_abs [OF std]) simp
    have hh: "\<bar>hh - hh0\<bar> \<le> 1200000 * unit_roundoff" using h by (simp add: hh_def)
    have tG: "\<bar>hh - hh0\<bar> \<le> a" using hh u by (simp add: a_def)
    have tR: "\<bar>fl (hh + fl (1 / 3)) - (hh0 + 1 / 3)\<bar> \<le> a"
    proof -
      have "\<bar>(hh + fl (1 / 3)) - (hh0 + 1 / 3)\<bar> \<le> 1200001 * unit_roundoff"
        using hh c13 u by linarith
      moreover have "\<bar>hh0 + 1 / 3\<bar> \<le> 2" using hh0 by argo
      ultimately have "\<bar>fl (hh + fl (1 / 3)) - (hh0 + 1 / 3)\<bar> \<le> 1200010 * unit_roundoff"
        by (rule fl_err [OF std]) (simp add: unit_roundoff_def)
      then show ?thesis using u by (simp add: a_def)
    qed
    have tB: "\<bar>fl (hh - fl (1 / 3)) - (hh0 - 1 / 3)\<bar> \<le> a"
    proof -
      have "\<bar>(hh - fl (1 / 3)) - (hh0 - 1 / 3)\<bar> \<le> 1200001 * unit_roundoff"
        using hh c13 u by linarith
      moreover have "\<bar>hh0 - 1 / 3\<bar> \<le> 2" using hh0 by argo
      ultimately have "\<bar>fl (hh - fl (1 / 3)) - (hh0 - 1 / 3)\<bar> \<le> 1200010 * unit_roundoff"
        by (rule fl_err [OF std]) (simp add: unit_roundoff_def)
      then show ?thesis using u by (simp add: a_def)
    qed
    have unit: "0 \<le> p0 + (q0 - p0) * tent x" "p0 + (q0 - p0) * tent x \<le> 1" for x
      using convex_unit [OF pq tent_range [of x]] by simp_all
    have cr: "\<bar>hue2rgb fl p q (fl (hh + fl (1 / 3))) - (p0 + (q0 - p0) * tent (wrap (hh0 + 1 / 3)))\<bar>
                \<le> 150 * a"
      using hh0 by (intro hue2rgb_close [OF std pa qa tR pq _ _ a]) argo+
    have cg: "\<bar>hue2rgb fl p q hh - (p0 + (q0 - p0) * tent (wrap hh0))\<bar> \<le> 150 * a"
      using hh0 by (intro hue2rgb_close [OF std pa qa tG pq _ _ a]) argo+
    have cb: "\<bar>hue2rgb fl p q (fl (hh - fl (1 / 3))) - (p0 + (q0 - p0) * tent (wrap (hh0 - 1 / 3)))\<bar>
                \<le> 150 * a"
      using hh0 by (intro hue2rgb_close [OF std pa qa tB pq _ _ a]) argo+
    from res eq have "R = Math_round (fl (hue2rgb fl p q (fl (hh + fl (1 / 3))) * 255))"
      "G = Math_round (fl (hue2rgb fl p q hh * 255))"
      "B = Math_round (fl (hue2rgb fl p q (fl (hh - fl (1 / 3))) * 255))"
      by simp_all
    then show ?thesis
      using channel_byte [OF std cr unit a'] channel_byte [OF std cg unit a']
        channel_byte [OF std cb unit a']
      by simp
  qed
qed

subsection \<open>The round trip\<close>

lemma rgb_hsl_round_trip_exact:
  assumes std: "std_rounding fl"
    and rgb: "0 \<le> r" "r \<le> 255" "0 \<le> g" "g \<le> 255" "0 \<le> b" "b \<le> 255"
    and hsl: "rgbToHsl fl (real_of_int r) (real_of_int g) (real_of_int b) = (h, s, l)"
  shows "hslToRgb fl h s l = (r, g, b)"
proof (cases "min (min r g) b < max (max r g) b")
  case True
  from round_trip_coloured [OF std rgb True hsl] show ?thesis .
next
  case False
  then have "g = r" "b = r" by (auto simp: min_def max_def split: if_splits)
  with round_trip_gray [OF std rgb(1,2), of h s l] hsl show ?thesis by simp
qed

text \<open>
  Claim C1. Under the standard model of double arithmetic, for every RGB triple of integers
  between 0 and 255, \<open>hslToRgb\<close> applied to the result of \<open>rgbToHsl\<close> gives back each channel
  within 1 of the original.  (The lemma before shows that it gives back the very triple.)
\<close>

theorem rgb_hsl_round_trip:
  assumes "std_rounding fl"
    and "0 \<le> r" "r \<le> 255" "0 \<le> g" "g \<le> 255" "0 \<le> b" "b \<le> 255"
    and "rgbToHsl fl (real_of_int r) (real_of_int g) (real_of_int b) = (h, s, l)"
    and "hslToRgb fl h s l = (r', g', b')"
  shows "\<bar>r' - r\<bar> \<le> 1 \<and> \<bar>g' - g\<bar> \<le> 1 \<and> \<bar>b' - b\<bar> \<le> 1"
  using rgb_hsl_round_trip_exact [OF assms(1-8)] assms(9) by simp

theorem rgb_hsl_round_trip_witness:
  "std_rounding id \<and>
   rgbToHsl id (real_of_int 12) (real_of_int 200) (real_of_int 77)
     = (6615 / 47, 4700 / 53, 2120 / 51) \<and>
   hslToRgb id (6615 / 47) (4700 / 53) (2120 / 51) = (12, 200, 77) \<and>
   \<bar>12 - (12 :: int)\<bar> \<le> 1 \<and> \<bar>200 - (200 :: int)\<bar> \<le> 1 \<and> \<bar>77 - (77 :: int)\<bar> \<le> 1"
proof -
  have hsl: "rgbToHsl id (real_of_int 12) (real_of_int 200) (real_of_int 77)
               = (6615 / 47, 4700 / 53, 2120 / 51)"
    by (simp add: rgbToHsl_def Let_def)
  have rgb: "hslToRgb id (6615 / 47) (4700 / 53) (2120 / 51) = (12, 200, 77)"
    by (simp add: hslToRgb_def hue2rgb_def Let_def Math_round_def)
  from rgb_hsl_round_trip [OF std_rounding_id _ _ _ _ _ _ hsl rgb] std_rounding_id hsl rgb
  show ?thesis by simp
qed

section \<open>Properties of the image filter engine\<close>

subsection \<open>The two loops, pixel by pixel\<close>

lemma length_colorizeAt [simp]: "length (colorizeAt fl hue sat data i) = length data"
  by (simp add: colorizeAt_def Let_def split: prod.splits)

lemma colorizeAt_outside:
  "j < i \<or> i + 4 \<le> j \<Longrightarrow> colorizeAt fl hue sat data i ! j = data ! j"
  by (auto simp: colorizeAt_def Let_def split: prod.splits)

lemma colorizeAt_alpha:
  "i + 3 < length data \<Longrightarrow> colorizeAt fl hue sat data i ! (i + 3) = data ! (i + 3)"
  by (simp add: colorizeAt_def Let_def split: prod.splits)

lemma colorizeAt_cong:
  assumes "length data' = length data" and "\<forall>c < 4. data' ! (q + c) = data ! (q + c)"
    and "c < 4" and "q + 3 < length data"
  shows "colorizeAt fl hue sat data' q ! (q + c) = colorizeAt fl hue sat data q ! (q + c)"
proof -
  have "data' ! q = data ! q" using assms(2) [rule_format, of 0] by simp
  moreover have "data' ! (q + 1) = data ! (q + 1)" using assms(2) [rule_format, of 1] by simp
  moreover have "data' ! (q + 2) = data ! (q + 2)" using assms(2) [rule_format, of 2] by simp
  moreover have "data' ! (q + 3) = data ! (q + 3)" using assms(2) [rule_format, of 3] by simp
  moreover from assms(3) have "c = 0 \<or> c = 1 \<or> c = 2 \<or> c = 3" by arith
  ultimately show ?thesis using assms(1,4)
    by (auto simp: colorizeAt_def Let_def nth_list_update split: prod.splits)
qed

lemma applyColorize_from_spec:
  "length (applyColorize_from fl hue sat i data) = length data \<and>
   (\<forall>j < i. applyColorize_from fl hue sat i data ! j = data ! j) \<and>
   (\<forall>t c. c < 4 \<longrightarrow> i + 4 * t + 3 < length data \<longrightarrow>
      applyColorize_from fl hue sat i data ! (i + 4 * t + c)
        = colorizeAt fl hue sat data (i + 4 * t) ! (i + 4 * t + c))"
proof (induction fl hue sat i data rule: applyColorize_from.induct)
  case (1 fl hue sat i data)
  show ?case
  proof (cases "i < length data")
    case False
    then show ?thesis by (simp add: applyColorize_from.simps [of fl hue sat i data])
  next
    case True
    let ?d = "colorizeAt fl hue sat data i"
    let ?out = "applyColorize_from fl hue sat (i + 4) ?d"
    have eq: "applyColorize_from fl hue sat i data = ?out"
      using True by (simp add: applyColorize_from.simps [of fl hue sat i data])
    note IH = "1.IH" [OF True]
    have len: "length ?out = length data" using IH by simp
    have before: "?out ! j = data ! j" if "j < i" for j
    proof -
      from that have "?out ! j = ?d ! j" using IH by simp
      with that show ?thesis by (simp add: colorizeAt_outside)
    qed
    have at: "?out ! (i + 4 * t + c) = colorizeAt fl hue sat data (i + 4 * t) ! (i + 4 * t + c)"
      if "c < 4" "i + 4 * t + 3 < length data" for t c
    proof (cases t)
      case 0
      from that have "?out ! (i + c) = ?d ! (i + c)" using IH by simp
      with 0 show ?thesis by simp
    next
      case (Suc u)
      have "?out ! (i + 4 + 4 * u + c) = colorizeAt fl hue sat ?d (i + 4 + 4 * u) ! (i + 4 + 4 * u + c)"
        using IH that Suc by simp
      also have "\<dots> = colorizeAt fl hue sat data (i + 4 + 4 * u) ! (i + 4 + 4 * u + c)"
        by (rule colorizeAt_cong) (use that Suc in \<open>simp_all add: colorizeAt_outside\<close>)
      finally show ?thesis using Suc by (simp add: add.assoc add.commute add.left_commute)
    qed
    show ?thesis unfolding eq using len before at by blast
  qed
qed


lemma toUint8Clamp_byte: "0 \<le> v \<Longrightarrow> v \<le> 255 \<Longrightarrow> int (toUint8Clamp v) = v"
  by (simp add: toUint8Clamp_def)

lemma colorizeAt_channels:
  assumes "i + 3 < length data"
    and "gray = fl (fl (fl (fl 0.299 * real (data ! i)) + fl (fl 0.587 * real (data ! (i + 1))))
                   + fl (fl 0.114 * real (data ! (i + 2))))"
    and "rgbToHsl fl gray gray gray = (h0, s0, l)"
    and "hslToRgb fl hue sat l = (newR, newG, newB)"
  shows "colorizeAt fl hue sat data i ! i = toUint8Clamp newR"
    and "colorizeAt fl hue sat data i ! (i + 1) = toUint8Clamp newG"
    and "colorizeAt fl hue sat data i ! (i + 2) = toUint8Clamp newB"
  using assms by (simp_all add: colorizeAt_def Let_def)

subsection \<open>Stored channels need no clamping\<close>

lemma weighted_err:
  assumes std: "std_rounding fl" and k: "0 \<le> k" "k \<le> 1" and x: "0 \<le> x" "x \<le> 255"
  shows "\<bar>fl (fl k * x) - k * x\<bar> \<le> 600 * unit_roundoff"
proof -
  note u = eps_pos eps_small
  have "\<bar>fl k - k\<bar> \<le> unit_roundoff * 1"
    by (rule fl_abs [OF std]) (use k in simp)
  then have "\<bar>fl k - k\<bar> \<le> unit_roundoff" by simp
  moreover have "\<bar>x - x\<bar> \<le> 0" "\<bar>k\<bar> \<le> 1" "\<bar>x\<bar> \<le> 255" using k x by simp_all
  ultimately have "\<bar>fl k * x - k * x\<bar> \<le> 255 * unit_roundoff"
    by (intro err_mult [where ea = unit_roundoff and eb = 0 and B = 1 and B' = 255]) simp_all
  moreover have "\<bar>k * x\<bar> \<le> 1 * 255" using k x by (intro abs_mult_le) simp_all
  ultimately show ?thesis
    by (rule fl_err [OF std]) (simp add: unit_roundoff_def)
qed

lemma gray_lightness:
  assumes std: "std_rounding fl"
    and r: "0 \<le> r" "r \<le> 255" and g: "0 \<le> g" "g \<le> 255" and b: "0 \<le> b" "b \<le> 255"
    and gray: "gray = fl (fl (fl (fl 0.299 * r) + fl (fl 0.587 * g)) + fl (fl 0.114 * b))"
    and hsl: "rgbToHsl fl gray gray gray = (h0, s0, L)"
  shows "\<exists>lh. 0 \<le> lh \<and> lh \<le> 1 \<and> \<bar>fl (L / 100) - lh\<bar> \<le> 1200000 * unit_roundoff"
proof -
  note u = eps_pos eps_small
  define G0 where "G0 = 0.299 * r + 0.587 * g + 0.114 * b"
  have G0: "0 \<le> G0" "G0 \<le> 255" using r g b by (simp_all add: G0_def)
  have w1: "\<bar>fl (fl 0.299 * r) - 0.299 * r\<bar> \<le> 600 * unit_roundoff"
    by (rule weighted_err [OF std _ _ r]) simp_all
  have w2: "\<bar>fl (fl 0.587 * g) - 0.587 * g\<bar> \<le> 600 * unit_roundoff"
    by (rule weighted_err [OF std _ _ g]) simp_all
  have w3: "\<bar>fl (fl 0.114 * b) - 0.114 * b\<bar> \<le> 600 * unit_roundoff"
    by (rule weighted_err [OF std _ _ b]) simp_all
  have "\<bar>(fl (fl 0.299 * r) + fl (fl 0.587 * g)) - (0.299 * r + 0.587 * g)\<bar>
          \<le> 1200 * unit_roundoff"
    using w1 w2 by linarith
  moreover have "\<bar>0.299 * r + 0.587 * g\<bar> \<le> 255" using r g by simp
  ultimately have s1: "\<bar>fl (fl (fl 0.299 * r) + fl (fl 0.587 * g)) - (0.299 * r + 0.587 * g)\<bar>
          \<le> 1500 * unit_roundoff"
    by (rule fl_err [OF std]) (simp add: unit_roundoff_def)
  have "\<bar>(fl (fl (fl 0.299 * r) + fl (fl 0.587 * g)) + fl (fl 0.114 * b)) - G0\<bar>
          \<le> 2100 * unit_roundoff"
    using s1 w3 unfolding G0_def by linarith
  moreover have "\<bar>G0\<bar> \<le> 255" using G0 by simp
  ultimately have gr: "\<bar>gray - G0\<bar> \<le> 2400 * unit_roundoff"
    unfolding gray by (rule fl_err [OF std]) (simp add: unit_roundoff_def)
  define lh where "lh = G0 / 255"
  have lh: "0 \<le> lh" "lh \<le> 1" using G0 by (simp_all add: lh_def)
  define x where "x = fl (gray / 255)"
  have "\<bar>gray / 255 - G0 / 255\<bar> \<le> 10 * unit_roundoff"
    using gr by (rule err_div_const) (simp_all add: unit_roundoff_def)
  moreover have "\<bar>G0 / 255\<bar> \<le> 1" using G0 by simp
  ultimately have x: "\<bar>x - lh\<bar> \<le> 12 * unit_roundoff"
    unfolding x_def lh_def by (rule fl_err [OF std]) (simp add: unit_roundoff_def)
  define lf where "lf = fl (fl (x + x) / 2)"
  have L: "L = fl (lf * 100)"
    using hsl by (simp add: rgbToHsl_def Let_def x_def lf_def)
  have "\<bar>(x + x) - (lh + lh)\<bar> \<le> 24 * unit_roundoff" using x by linarith
  moreover have "\<bar>lh + lh\<bar> \<le> 2" using lh by simp
  ultimately have "\<bar>fl (x + x) - (lh + lh)\<bar> \<le> 27 * unit_roundoff"
    by (rule fl_err [OF std]) (simp add: unit_roundoff_def)
  then have "\<bar>fl (x + x) / 2 - (lh + lh) / 2\<bar> \<le> 14 * unit_roundoff"
    by (rule err_div_const) (simp_all add: unit_roundoff_def)
  then have "\<bar>fl (x + x) / 2 - lh\<bar> \<le> 14 * unit_roundoff" by simp
  moreover have "\<bar>lh\<bar> \<le> 1" using lh by simp
  ultimately have lf: "\<bar>lf - lh\<bar> \<le> 16 * unit_roundoff"
    unfolding lf_def by (rule fl_err [OF std]) (simp add: unit_roundoff_def)
  have "\<bar>fl (fl (lf * 100) / 100) - lh\<bar> \<le> 16 * unit_roundoff + 5 * unit_roundoff"
    using std lf by (rule scale_round_trip) (use lh in \<open>simp_all add: unit_roundoff_def\<close>)
  then have "\<bar>fl (L / 100) - lh\<bar> \<le> 1200000 * unit_roundoff"
    using u by (simp add: L)
  with lh show ?thesis by blast
qed

lemma colorize_channels_are_bytes:
  assumes std: "std_rounding fl"
    and r: "0 \<le> r" "r \<le> 255" and g: "0 \<le> g" "g \<le> 255" and b: "0 \<le> b" "b \<le> 255"
    and hue: "- 180 \<le> hue" "hue \<le> 180" and sat: "- 100 \<le> saturation" "saturation \<le> 100"
    and gray: "gray = fl (fl (fl (fl 0.299 * r) + fl (fl 0.587 * g)) + fl (fl 0.114 * b))"
    and hsl: "rgbToHsl fl gray gray gray = (h0, s0, l)"
    and res: "hslToRgb fl hue saturation l = (R, G, B)"
  shows "0 \<le> R \<and> R \<le> 255 \<and> 0 \<le> G \<and> G \<le> 255 \<and> 0 \<le> B \<and> B \<le> 255"
proof -
  note u = eps_pos eps_small
  from gray_lightness [OF std r g b gray hsl] obtain lh where
    lh: "0 \<le> lh" "lh \<le> 1" and l: "\<bar>fl (l / 100) - lh\<bar> \<le> 1200000 * unit_roundoff"
    by blast
  have "\<bar>fl (hue / 360) - hue / 360\<bar> \<le> unit_roundoff * 1"
    by (rule fl_abs [OF std]) (use hue in simp)
  then have h: "\<bar>fl (hue / 360) - hue / 360\<bar> \<le> 1200000 * unit_roundoff" using u by linarith
  have "\<bar>fl (saturation / 100) - saturation / 100\<bar> \<le> unit_roundoff * 1"
    by (rule fl_abs [OF std]) (use sat in simp)
  then have s: "\<bar>fl (saturation / 100) - saturation / 100\<bar> \<le> 1200000 * unit_roundoff"
    using u by linarith
  show ?thesis
    by (rule hslToRgb_range [OF std h _ _ s _ _ l lh res]) (use hue sat in simp_all)
qed

lemma rgbToHsl_ranges:
  assumes std: "std_rounding fl"
    and rgb: "0 \<le> r" "r \<le> 255" "0 \<le> g" "g \<le> 255" "0 \<le> b" "b \<le> 255"
    and hsl: "rgbToHsl fl (real_of_int r) (real_of_int g) (real_of_int b) = (H, S, L)"
  shows "\<exists>hh0 sh. 0 \<le> hh0 \<and> hh0 \<le> 1 \<and> 0 \<le> sh \<and> sh \<le> 1 \<and>
           \<bar>fl (H / 360) - hh0\<bar> \<le> 1200000 * unit_roundoff \<and>
           \<bar>fl (S / 100) - sh\<bar> \<le> 1200000 * unit_roundoff"
proof (cases "min (min r g) b < max (max r g) b")
  case True
  note u = eps_pos eps_small
  from rgbToHsl_coloured [OF std rgb True hsl] obtain h0 s0 M m where
    f: "\<bar>fl (H / 360) - h0\<bar> \<le> 200010 * unit_roundoff"
    "\<bar>fl (S / 100) - s0\<bar> \<le> 1200000 * unit_roundoff"
    "\<bar>fl (L / 100) - (M + m) / 2\<bar> \<le> 20 * unit_roundoff"
    "0 \<le> m" "m < M" "M \<le> 1" "1 / 255 \<le> M - m"
    "s0 = (if M + m > 1 then (M - m) / (2 - M - m) else (M - m) / (M + m))"
    "M + m = 1 \<or> 1 + 1 / 255 \<le> M + m \<or> M + m \<le> 1 - 1 / 255"
    "0 \<le> h0" "h0 \<le> 1"
    "m + (M - m) * tent (wrap (h0 + 1 / 3)) = real_of_int r / 255"
    "m + (M - m) * tent (wrap h0) = real_of_int g / 255"
    "m + (M - m) * tent (wrap (h0 - 1 / 3)) = real_of_int b / 255"
    by blast
  from sat_exact_range [OF f(4-6,8)] have s0: "0 \<le> s0" "s0 \<le> 1" by simp_all
  from f(1) u have h: "\<bar>fl (H / 360) - h0\<bar> \<le> 1200000 * unit_roundoff" by linarith
  show ?thesis
    by (intro exI [of _ h0] exI [of _ s0] conjI) (rule f(10) f(11) s0 h f(2))+
next
  case False
  then have eq: "g = r" "b = r" by (auto simp: min_def max_def split: if_splits)
  have z: "fl 0 = 0" by (rule fl_zero [OF std])
  from hsl have "H = 0" "S = 0"
    by (simp_all add: rgbToHsl_def Let_def eq z)
  then have "\<bar>fl (H / 360) - 0\<bar> \<le> 1200000 * unit_roundoff"
    "\<bar>fl (S / 100) - 0\<bar> \<le> 1200000 * unit_roundoff"
    using eps_pos by (simp_all add: z)
  then show ?thesis by (intro exI [of _ 0] conjI) simp_all
qed

lemma lightness_channels_are_bytes:
  assumes std: "std_rounding fl"
    and rgb: "r \<le> 255" "g \<le> 255" "b \<le> 255"
    and hsl: "rgbToHsl fl (real r) (real g) (real b) = (h, s, l0)"
    and res: "hslToRgb fl h s (max 0 (min 100 (fl (l0 + lightnessAdjust)))) = (R, G, B)"
  shows "0 \<le> R \<and> R \<le> 255 \<and> 0 \<le> G \<and> G \<le> 255 \<and> 0 \<le> B \<and> B \<le> 255"
proof -
  note u = eps_pos eps_small
  define lc where "lc = max 0 (min 100 (fl (l0 + lightnessAdjust)))"
  have lc: "0 \<le> lc / 100" "lc / 100 \<le> 1" by (simp_all add: lc_def)
  have "\<bar>fl (lc / 100) - lc / 100\<bar> \<le> unit_roundoff * 1"
    by (rule fl_abs [OF std]) (use lc in simp)
  then have l: "\<bar>fl (lc / 100) - lc / 100\<bar> \<le> 1200000 * unit_roundoff" using u by linarith
  have hsl': "rgbToHsl fl (real_of_int (int r)) (real_of_int (int g)) (real_of_int (int b))
                = (h, s, l0)"
    using hsl by simp
  have bytes: "0 \<le> int r" "int r \<le> 255" "0 \<le> int g" "int g \<le> 255"
    "0 \<le> int b" "int b \<le> 255"
    using rgb by simp_all
  from rgbToHsl_ranges [OF std bytes hsl'] obtain hh0 sh where
    f: "0 \<le> hh0" "hh0 \<le> 1" "0 \<le> sh" "sh \<le> 1"
      "\<bar>fl (h / 360) - hh0\<bar> \<le> 1200000 * unit_roundoff"
      "\<bar>fl (s / 100) - sh\<bar> \<le> 1200000 * unit_roundoff"
    by blast
  show ?thesis
    by (rule hslToRgb_range [OF std f(5) _ f(2) f(6) _ f(4) l lc res [folded lc_def]])
       (use f in simp_all)
qed

text \<open>
  The file that is read is the uploaded one, or the answer of the removal service when
  the background is to be removed.  Once it is decoded, the result is that of the pixel work.
\<close>

lemma applyHslFilter_decoded:
  assumes "(if removeBg then removeBackgroundWithAPI env file else Inr file) = Inr fileToProcess"
    and "readAsDataURL env fileToProcess = Some url" and "decodeImage env url = Some data"
  shows "applyHslFilter fl env file hueShift saturationAdjust lightnessAdjust removeBg
           = Inr (filterPixels fl data hueShift saturationAdjust lightnessAdjust)"
  using assms by (simp add: applyHslFilter_def)

text \<open>
  Claim C2. The colorize pass is part of every run of \<open>applyHslFilter\<close> that reaches the
  pixels, with or without background removal and whatever the hue and the saturation:
  when the file to process (the uploaded file, or the answer of the removal service if
  \<open>removeBg\<close> is set) is read and decoded, the result with no lightness adjustment is the
  colorized buffer, and otherwise the lightness loop runs on the colorized buffer.  On a
  buffer of \<open>n\<close> pixels the pass gives pixel \<open>k\<close> the channels
  \<open>hslToRgb hueShift saturationAdjust l\<close>, where \<open>l\<close> is the lightness of
  \<open>rgbToHsl gray gray gray\<close> and \<open>gray = 0.299 r + 0.587 g + 0.114 b\<close>, and leaves its
  alpha byte as it was.  The byte array stores a channel clamped to 0..255; under the
  standard model of double arithmetic, for bytes and for a hue in [-180, 180] and a
  saturation in [-100, 100], every channel is a byte and is stored as it is.
\<close>

theorem colorize_pass:
  assumes "length data = 4 * n" and "k < n"
    and "gray = fl (fl (fl (fl 0.299 * real (data ! (4 * k)))
                        + fl (fl 0.587 * real (data ! (4 * k + 1))))
                   + fl (fl 0.114 * real (data ! (4 * k + 2))))"
    and "rgbToHsl fl gray gray gray = (h0, s0, l)"
    and "hslToRgb fl hueShift saturationAdjust l = (newR, newG, newB)"
    and "(if removeBg then removeBackgroundWithAPI env file else Inr file) = Inr fileToProcess"
    and "readAsDataURL env fileToProcess = Some url" and "decodeImage env url = Some data"
  shows "applyHslFilter fl env file hueShift saturationAdjust 0 removeBg
           = Inr (applyColorize fl data hueShift saturationAdjust)
       \<and> (lightnessAdjust \<noteq> 0 \<longrightarrow>
            applyHslFilter fl env file hueShift saturationAdjust lightnessAdjust removeBg
              = Inr (lightness_from fl lightnessAdjust 0
                       (applyColorize fl data hueShift saturationAdjust)))
       \<and> filterPixels fl data hueShift saturationAdjust 0
           = applyColorize fl data hueShift saturationAdjust
       \<and> (lightnessAdjust \<noteq> 0 \<longrightarrow>
            filterPixels fl data hueShift saturationAdjust lightnessAdjust
              = lightness_from fl lightnessAdjust 0
                  (applyColorize fl data hueShift saturationAdjust))
       \<and> length (applyColorize fl data hueShift saturationAdjust) = length data
       \<and> applyColorize fl data hueShift saturationAdjust ! (4 * k) = toUint8Clamp newR
       \<and> applyColorize fl data hueShift saturationAdjust ! (4 * k + 1) = toUint8Clamp newG
       \<and> applyColorize fl data hueShift saturationAdjust ! (4 * k + 2) = toUint8Clamp newB
       \<and> applyColorize fl data hueShift saturationAdjust ! (4 * k + 3) = data ! (4 * k + 3)
       \<and> (std_rounding fl \<and> data ! (4 * k) \<le> 255 \<and> data ! (4 * k + 1) \<le> 255
            \<and> data ! (4 * k + 2) \<le> 255
            \<and> - 180 \<le> hueShift \<and> hueShift \<le> 180
            \<and> - 100 \<le> saturationAdjust \<and> saturationAdjust \<le> 100 \<longrightarrow>
            int (applyColorize fl data hueShift saturationAdjust ! (4 * k)) = newR
          \<and> int (applyColorize fl data hueShift saturationAdjust ! (4 * k + 1)) = newG
          \<and> int (applyColorize fl data hueShift saturationAdjust ! (4 * k + 2)) = newB)"
proof -
  let ?out = "applyColorize fl data hueShift saturationAdjust"
  from assms(1,2) have inr: "4 * k + 3 < length data" by simp
  note spec = applyColorize_from_spec [of fl hueShift saturationAdjust 0 data]
  have px: "?out ! (4 * k + c) = colorizeAt fl hueShift saturationAdjust data (4 * k) ! (4 * k + c)"
    if "c < 4" for c
    using spec that inr by (simp add: applyColorize_def)
  note ch = colorizeAt_channels [OF inr assms(3) assms(4) assms(5)]
  have r: "?out ! (4 * k) = toUint8Clamp newR" using px [of 0] ch(1) by simp
  have g: "?out ! (4 * k + 1) = toUint8Clamp newG" using px [of 1] ch(2) by simp
  have b: "?out ! (4 * k + 2) = toUint8Clamp newB" using px [of 2] ch(3) by simp
  have a: "?out ! (4 * k + 3) = data ! (4 * k + 3)"
    using px [of 3] colorizeAt_alpha [OF inr] by simp
  have len: "length ?out = length data" using spec by (simp add: applyColorize_def)
  have f0: "filterPixels fl data hueShift saturationAdjust 0 = ?out"
    by (simp add: filterPixels_def)
  have f1: "lightnessAdjust \<noteq> 0 \<longrightarrow>
            filterPixels fl data hueShift saturationAdjust lightnessAdjust
              = lightness_from fl lightnessAdjust 0 ?out"
    by (simp add: filterPixels_def)
  have bytes: "int (?out ! (4 * k)) = newR \<and> int (?out ! (4 * k + 1)) = newG
                 \<and> int (?out ! (4 * k + 2)) = newB"
    if "std_rounding fl" "data ! (4 * k) \<le> 255" "data ! (4 * k + 1) \<le> 255"
      "data ! (4 * k + 2) \<le> 255" "- 180 \<le> hueShift" "hueShift \<le> 180"
      "- 100 \<le> saturationAdjust" "saturationAdjust \<le> 100"
  proof -
    have "0 \<le> newR \<and> newR \<le> 255 \<and> 0 \<le> newG \<and> newG \<le> 255 \<and> 0 \<le> newB \<and> newB \<le> 255"
      by (rule colorize_channels_are_bytes [OF that(1) _ _ _ _ _ _ that(5-8) assms(3-5)])
         (use that(2-4) in simp_all)
    then show ?thesis using r g b by (simp add: toUint8Clamp_byte)
  qed
  note dec = applyHslFilter_decoded [OF assms(6,7,8), of fl hueShift saturationAdjust]
  have e0: "applyHslFilter fl env file hueShift saturationAdjust 0 removeBg = Inr ?out"
    using dec [of 0] f0 by simp
  have e1: "lightnessAdjust \<noteq> 0 \<longrightarrow>
            applyHslFilter fl env file hueShift saturationAdjust lightnessAdjust removeBg
              = Inr (lightness_from fl lightnessAdjust 0 ?out)"
    using dec [of lightnessAdjust] f1 by simp
  show ?thesis using e0 e1 f0 f1 len r g b a bytes by blast
qed

theorem colorize_pass_witness:
  "length [255, 0, 0, 200 :: nat] = 4 * 1 \<and> (0 :: nat) < 1 \<and>
   rgbToHsl id (15249 / 200) (15249 / 200) (15249 / 200) = (0, 0, 299 / 10) \<and>
   hslToRgb id 120 50 (299 / 10) = (38, 114, 38) \<and> std_rounding id \<and>
   removeBackgroundWithAPI sampleFilterEnv ''icon.png'' = Inr ''icon.png.nobg'' \<and>
   readAsDataURL sampleFilterEnv ''icon.png.nobg'' = Some ''data:icon.png.nobg'' \<and>
   decodeImage sampleFilterEnv ''data:icon.png.nobg'' = Some [255, 0, 0, 200] \<and>
   applyHslFilter id sampleFilterEnv ''icon.png'' 120 50 0 True
     = Inr (applyColorize id [255, 0, 0, 200] 120 50) \<and>
   applyColorize id [255, 0, 0, 200] 120 50 ! 0 = 38 \<and>
   applyColorize id [255, 0, 0, 200] 120 50 ! 1 = 114 \<and>
   applyColorize id [255, 0, 0, 200] 120 50 ! 2 = 38 \<and>
   applyColorize id [255, 0, 0, 200] 120 50 ! 3 = 200"
proof -
  have len: "length [255, 0, 0, 200 :: nat] = 4 * 1" by simp
  have k: "(0 :: nat) < 1" by simp
  have gray: "(15249 / 200 :: real)
      = id (id (id (id 0.299 * real ([255, 0, 0, 200] ! (4 * 0)))
                + id (id 0.587 * real ([255, 0, 0, 200] ! (4 * 0 + 1))))
            + id (id 0.114 * real ([255, 0, 0, 200] ! (4 * 0 + 2))))"
    by simp
  have hsl: "rgbToHsl id (15249 / 200) (15249 / 200) (15249 / 200) = (0, 0, 299 / 10)"
    by (simp add: rgbToHsl_def Let_def)
  have rgb: "hslToRgb id 120 50 (299 / 10) = (38, 114, 38)"
    by (simp add: hslToRgb_def hue2rgb_def Let_def Math_round_def)
  have rm: "removeBackgroundWithAPI sampleFilterEnv ''icon.png'' = Inr ''icon.png.nobg''"
    and rd: "readAsDataURL sampleFilterEnv ''icon.png.nobg'' = Some ''data:icon.png.nobg''"
    and dc: "decodeImage sampleFilterEnv ''data:icon.png.nobg'' = Some [255, 0, 0, 200]"
    by (simp_all add: sampleFilterEnv_def)
  have toProcess: "(if True then removeBackgroundWithAPI sampleFilterEnv ''icon.png''
                     else Inr ''icon.png'') = Inr ''icon.png.nobg''"
    using rm by simp
  from colorize_pass [OF len k gray hsl rgb toProcess rd dc] len k hsl rgb std_rounding_id rm rd dc
  show ?thesis
    by (simp add: toUint8Clamp_def numeral_2_eq_2)
qed

lemma length_lightnessAt [simp]: "length (lightnessAt fl adj data i) = length data"
  by (simp add: lightnessAt_def Let_def split: prod.splits)

lemma lightnessAt_outside:
  "j < i \<or> i + 4 \<le> j \<Longrightarrow> lightnessAt fl adj data i ! j = data ! j"
  by (auto simp: lightnessAt_def Let_def split: prod.splits)

lemma lightnessAt_alpha:
  "i + 3 < length data \<Longrightarrow> lightnessAt fl adj data i ! (i + 3) = data ! (i + 3)"
  by (simp add: lightnessAt_def Let_def split: prod.splits)

lemma lightnessAt_cong:
  assumes "length data' = length data" and "\<forall>c < 4. data' ! (q + c) = data ! (q + c)"
    and "c < 4" and "q + 3 < length data"
  shows "lightnessAt fl adj data' q ! (q + c) = lightnessAt fl adj data q ! (q + c)"
proof -
  have "data' ! q = data ! q" using assms(2) [rule_format, of 0] by simp
  moreover have "data' ! (q + 1) = data ! (q + 1)" using assms(2) [rule_format, of 1] by simp
  moreover have "data' ! (q + 2) = data ! (q + 2)" using assms(2) [rule_format, of 2] by simp
  moreover have "data' ! (q + 3) = data ! (q + 3)" using assms(2) [rule_format, of 3] by simp
  moreover from assms(3) have "c = 0 \<or> c = 1 \<or> c = 2 \<or> c = 3" by arith
  ultimately show ?thesis using assms(1,4)
    by (auto simp: lightnessAt_def Let_def nth_list_update split: prod.splits)
qed

lemma lightness_from_spec:
  "length (lightness_from fl adj i data) = length data \<and>
   (\<forall>j < i. lightness_from fl adj i data ! j = data ! j) \<and>
   (\<forall>t c. c < 4 \<longrightarrow> i + 4 * t + 3 < length data \<longrightarrow>
      lightness_from fl adj i data ! (i + 4 * t + c)
        = lightnessAt fl adj data (i + 4 * t) ! (i + 4 * t + c))"
proof (induction fl adj i data rule: lightness_from.induct)
  case (1 fl adj i data)
  show ?case
  proof (cases "i < length data")
    case False
    then show ?thesis by (simp add: lightness_from.simps [of fl adj i data])
  next
    case True
    let ?d = "lightnessAt fl adj data i"
    let ?out = "lightness_from fl adj (i + 4) ?d"
    have eq: "lightness_from fl adj i data = ?out"
      using True by (simp add: lightness_from.simps [of fl adj i data])
    note IH = "1.IH" [OF True]
    have len: "length ?out = length data" using IH by simp
    have before: "?out ! j = data ! j" if "j < i" for j
    proof -
      from that have "?out ! j = ?d ! j" using IH by simp
      with that show ?thesis by (simp add: lightnessAt_outside)
    qed
    have at: "?out ! (i + 4 * t + c) = lightnessAt fl adj data (i + 4 * t) ! (i + 4 * t + c)"
      if "c < 4" "i + 4 * t + 3 < length data" for t c
    proof (cases t)
      case 0
      from that have "?out ! (i + c) = ?d ! (i + c)" using IH by simp
      with 0 show ?thesis by simp
    next
      case (Suc u)
      have "?out ! (i + 4 + 4 * u + c) = lightnessAt fl adj ?d (i + 4 + 4 * u) ! (i + 4 + 4 * u + c)"
        using IH that Suc by simp
      also have "\<dots> = lightnessAt fl adj data (i + 4 + 4 * u) ! (i + 4 + 4 * u + c)"
        by (rule lightnessAt_cong) (use that Suc in \<open>simp_all add: lightnessAt_outside\<close>)
      finally show ?thesis using Suc by (simp add: add.assoc add.commute add.left_commute)
    qed
    show ?thesis unfolding eq using len before at by blast
  qed
qed

lemma lightnessAt_channels:
  assumes "i + 3 < length data"
    and "rgbToHsl fl (real (data ! i)) (real (data ! (i + 1))) (real (data ! (i + 2))) = (h, s, l0)"
    and "hslToRgb fl h s (max 0 (min 100 (fl (l0 + adj)))) = (newR, newG, newB)"
  shows "lightnessAt fl adj data i ! i = toUint8Clamp newR"
    and "lightnessAt fl adj data i ! (i + 1) = toUint8Clamp newG"
    and "lightnessAt fl adj data i ! (i + 2) = toUint8Clamp newB"
  using assms by (simp_all add: lightnessAt_def Let_def)

lemma toUint8Clamp_le: "toUint8Clamp v \<le> 255"
  by (simp add: toUint8Clamp_def)

text \<open>
  Claim C3. A run of \<open>applyHslFilter\<close> that reaches the pixels, with or without background
  removal, skips the lightness pass when \<open>lightnessAdjust = 0\<close>: the result is the colorized
  buffer.  Otherwise the pass runs: it gives pixel \<open>k\<close> of the colorized buffer the channels
  \<open>hslToRgb h s l\<close>, where \<open>(h, s, l0) = rgbToHsl r g b\<close> and \<open>l\<close> is \<open>l0 + lightnessAdjust\<close>
  clamped to [0, 100], and leaves its alpha byte as it was.  Under the standard model of
  double arithmetic every channel is a byte and is stored as it is.
\<close>

theorem lightness_pass:
  assumes "length data = 4 * n" and "k < n"
    and "colorized = applyColorize fl data hueShift saturationAdjust"
    and "rgbToHsl fl (real (colorized ! (4 * k))) (real (colorized ! (4 * k + 1)))
           (real (colorized ! (4 * k + 2))) = (h, s, l0)"
    and "hslToRgb fl h s (max 0 (min 100 (fl (l0 + lightnessAdjust)))) = (newR, newG, newB)"
    and "out = filterPixels fl data hueShift saturationAdjust lightnessAdjust"
    and "(if removeBg then removeBackgroundWithAPI env file else Inr file) = Inr fileToProcess"
    and "readAsDataURL env fileToProcess = Some url" and "decodeImage env url = Some data"
  shows "applyHslFilter fl env file hueShift saturationAdjust lightnessAdjust removeBg = Inr out
       \<and> (lightnessAdjust = 0 \<longrightarrow> out = colorized)
       \<and> (lightnessAdjust \<noteq> 0 \<longrightarrow>
            length out = length data
          \<and> out ! (4 * k) = toUint8Clamp newR
          \<and> out ! (4 * k + 1) = toUint8Clamp newG
          \<and> out ! (4 * k + 2) = toUint8Clamp newB
          \<and> out ! (4 * k + 3) = colorized ! (4 * k + 3)
          \<and> out ! (4 * k + 3) = data ! (4 * k + 3)
          \<and> (std_rounding fl \<longrightarrow>
                int (out ! (4 * k)) = newR \<and> int (out ! (4 * k + 1)) = newG
              \<and> int (out ! (4 * k + 2)) = newB))"
proof -
  have zero: "lightnessAdjust = 0 \<longrightarrow> out = colorized"
    using assms(3,6) by (simp add: filterPixels_def)
  have run: "length out = length data
          \<and> out ! (4 * k) = toUint8Clamp newR
          \<and> out ! (4 * k + 1) = toUint8Clamp newG
          \<and> out ! (4 * k + 2) = toUint8Clamp newB
          \<and> out ! (4 * k + 3) = colorized ! (4 * k + 3)
          \<and> out ! (4 * k + 3) = data ! (4 * k + 3)
          \<and> (std_rounding fl \<longrightarrow>
                int (out ! (4 * k)) = newR \<and> int (out ! (4 * k + 1)) = newG
              \<and> int (out ! (4 * k + 2)) = newB)" if nz: "lightnessAdjust \<noteq> 0"
  proof -
    have out: "out = lightness_from fl lightnessAdjust 0 colorized"
      using assms(3,6) nz by (simp add: filterPixels_def)
    note cspec = applyColorize_from_spec [of fl hueShift saturationAdjust 0 data]
    have clen: "length colorized = length data"
      using cspec assms(3) by (simp add: applyColorize_def)
    with assms(1,2) have inr: "4 * k + 3 < length colorized" by simp
    from assms(1,2) have inr': "4 * k + 3 < length data" by simp
    note spec = lightness_from_spec [of fl lightnessAdjust 0 colorized]
    have px: "out ! (4 * k + c) = lightnessAt fl lightnessAdjust colorized (4 * k) ! (4 * k + c)"
      if "c < 4" for c
      using spec that inr by (simp add: out)
    note ch = lightnessAt_channels [OF inr assms(4) assms(5)]
    have r: "out ! (4 * k) = toUint8Clamp newR" using px [of 0] ch(1) by simp
    have g: "out ! (4 * k + 1) = toUint8Clamp newG" using px [of 1] ch(2) by simp
    have b: "out ! (4 * k + 2) = toUint8Clamp newB" using px [of 2] ch(3) by simp
    have a: "out ! (4 * k + 3) = colorized ! (4 * k + 3)"
      using px [of 3] lightnessAt_alpha [OF inr] by simp
    have cpx: "colorized ! (4 * k + c)
                 = colorizeAt fl hueShift saturationAdjust data (4 * k) ! (4 * k + c)"
      if "c < 4" for c
      using cspec that inr' assms(3) by (simp add: applyColorize_def)
    have a0: "colorized ! (4 * k + 3) = data ! (4 * k + 3)"
      using cpx [of 3] colorizeAt_alpha [OF inr'] by simp
    have cbytes: "colorized ! (4 * k) \<le> 255" "colorized ! (4 * k + 1) \<le> 255"
      "colorized ! (4 * k + 2) \<le> 255"
      using cpx [of 0] cpx [of 1] cpx [of 2] inr'
      by (simp_all add: colorizeAt_def Let_def toUint8Clamp_le split: prod.splits)
    have len: "length out = length data" using spec clen by (simp add: out)
    have bytes: "int (out ! (4 * k)) = newR \<and> int (out ! (4 * k + 1)) = newG
              \<and> int (out ! (4 * k + 2)) = newB" if std: "std_rounding fl"
      using lightness_channels_are_bytes [OF std cbytes assms(4) assms(5)] r g b
      by (simp add: toUint8Clamp_byte)
    show ?thesis using len r g b a a0 bytes by simp
  qed
  have dec: "applyHslFilter fl env file hueShift saturationAdjust lightnessAdjust removeBg
               = Inr out"
    using applyHslFilter_decoded [OF assms(7,8,9)] assms(6) by simp
  show ?thesis using dec zero run by blast
qed

theorem lightness_pass_witness:
  "length [255, 0, 0, 200 :: nat] = 4 * 1 \<and> (0 :: nat) < 1 \<and> (10 :: real) \<noteq> 0 \<and>
   std_rounding id \<and>
   removeBackgroundWithAPI sampleFilterEnv ''icon.png'' = Inr ''icon.png.nobg'' \<and>
   readAsDataURL sampleFilterEnv ''icon.png.nobg'' = Some ''data:icon.png.nobg'' \<and>
   decodeImage sampleFilterEnv ''data:icon.png.nobg'' = Some [255, 0, 0, 200] \<and>
   applyHslFilter id sampleFilterEnv ''icon.png'' 120 50 10 True
     = Inr (filterPixels id [255, 0, 0, 200] 120 50 10) \<and>
   applyColorize id [255, 0, 0, 200] 120 50 = [38, 114, 38, 200] \<and>
   rgbToHsl id 38 114 38 = (120, 50, 1520 / 51) \<and>
   hslToRgb id 120 50 (max 0 (min 100 (id (1520 / 51 + 10)))) = (51, 152, 51) \<and>
   filterPixels id [255, 0, 0, 200] 120 50 10 ! 0 = 51 \<and>
   filterPixels id [255, 0, 0, 200] 120 50 10 ! 1 = 152 \<and>
   filterPixels id [255, 0, 0, 200] 120 50 10 ! 2 = 51 \<and>
   filterPixels id [255, 0, 0, 200] 120 50 10 ! 3 = 200"
proof -
  have len: "length [255, 0, 0, 200 :: nat] = 4 * 1" by simp
  have k: "(0 :: nat) < 1" by simp
  have hsl0: "rgbToHsl id (15249 / 200) (15249 / 200) (15249 / 200) = (0, 0, 299 / 10)"
    by (simp add: rgbToHsl_def Let_def)
  have rgb0: "hslToRgb id 120 50 (299 / 10) = (38, 114, 38)"
    by (simp add: hslToRgb_def hue2rgb_def Let_def Math_round_def)
  have col: "applyColorize id [255, 0, 0, 200] 120 50 = [38, 114, 38, 200]"
    by (simp add: applyColorize_def applyColorize_from.simps colorizeAt_def hsl0 rgb0
        toUint8Clamp_def)
  have hsl: "rgbToHsl id (real ([38, 114, 38, 200 :: nat] ! (4 * 0)))
      (real ([38, 114, 38, 200 :: nat] ! (4 * 0 + 1)))
      (real ([38, 114, 38, 200 :: nat] ! (4 * 0 + 2))) = (120, 50, 1520 / 51)"
    by (simp add: rgbToHsl_def Let_def)
  have rgb: "hslToRgb id 120 50 (max 0 (min 100 (id (1520 / 51 + 10)))) = (51, 152, 51)"
    by (simp add: hslToRgb_def hue2rgb_def Let_def Math_round_def)
  have rm: "removeBackgroundWithAPI sampleFilterEnv ''icon.png'' = Inr ''icon.png.nobg''"
    and rd: "readAsDataURL sampleFilterEnv ''icon.png.nobg'' = Some ''data:icon.png.nobg''"
    and dc: "decodeImage sampleFilterEnv ''data:icon.png.nobg'' = Some [255, 0, 0, 200]"
    by (simp_all add: sampleFilterEnv_def)
  have toProcess: "(if True then removeBackgroundWithAPI sampleFilterEnv ''icon.png''
                     else Inr ''icon.png'') = Inr ''icon.png.nobg''"
    using rm by simp
  from lightness_pass [OF len k col [symmetric] hsl rgb refl toProcess rd dc] col hsl rgb
    std_rounding_id rm rd dc
  show ?thesis
    by (simp add: toUint8Clamp_def numeral_2_eq_2)
qed

section \<open>Properties of the graphic renderer\<close>



lemma label_icon_update [simp]: "label (e\<lparr>icon := x\<rparr>) = label e"
  by (simp add: label_def)
















text \<open>
  Claim C6. For an empty list and for a value that is no array the renderer shows the
  message and stops: there is no canvas, no icon is asked for and the argument is left as
  it was.
\<close>

theorem generateGraphic_no_entries:
  "generateGraphic fl env NotArray
     = \<lparr> area = AreaText ''No entries to generate from.'', entries_after = NotArray,
         icon_loads = [] \<rparr>
   \<and> generateGraphic fl env (Array [])
     = \<lparr> area = AreaText ''No entries to generate from.'', entries_after = Array [],
         icon_loads = [] \<rparr>
   \<and> logicalWidth (area (generateGraphic fl env NotArray)) = None
   \<and> logicalWidth (area (generateGraphic fl env (Array []))) = None"
  by (simp add: generateGraphic_def)

text \<open>
  Claim C9. As stated the claim fails: when the call has returned, the caller's entry
  still holds the icon that was loaded for it.
\<close>

theorem generateGraphic_icon_retained_counterexample:
  "entries_after (generateGraphic id sampleEnv (Array sampleEntries))
     = Array [\<lparr> place = ''1'', name = ''Lucky'', character = ''Fox'', icon = Some 1 \<rparr>,
              \<lparr> place = ''2'', name = ''Mango'', character = ''Falco'', icon = None \<rparr>]"
  by (simp add: generateGraphic_def Let_def sampleEntries_def sampleEnv_def
      loadCharacterIcon_def cleanedIconBase_def isSpace_def sampleLoadImage_def)

text \<open>
  Claim C9. amended.  When a render of a non-empty list has returned, every entry of
  the caller holds in \<open>icon\<close> the outcome of its preload (the image, or \<open>null\<close>) and its other
  fields are unchanged; the renderer does not clear the field.  The generate button builds
  its entries with \<open>icon\<close> \<open>null\<close> at every click.
\<close>

theorem generateGraphic_leaves_icons:
  assumes "entries \<noteq> []"
  shows "\<exists>after.
           entries_after (generateGraphic fl env (Array entries)) = Array after \<and>
           length after = length entries \<and>
           (\<forall>i < length entries.
              place (after ! i) = place (entries ! i) \<and>
              name (after ! i) = name (entries ! i) \<and>
              character (after ! i) = character (entries ! i) \<and>
              icon (after ! i) = loadCharacterIcon env (character (entries ! i)))
       \<and> icon (entryOfRow r :: 'img renderEntry) = None"
  using assms by (simp add: generateGraphic_def Let_def entryOfRow_def)

theorem generateGraphic_leaves_icons_witness:
  "sampleEntries \<noteq> [] \<and>
   (\<exists>after. entries_after (generateGraphic id sampleEnv (Array sampleEntries)) = Array after \<and>
      length after = 2 \<and> icon (after ! 0) = Some 1)"
proof -
  have a: "sampleEntries \<noteq> []" by (simp add: sampleEntries_def)
  from generateGraphic_leaves_icons [OF a, of id sampleEnv] obtain after where
    after: "entries_after (generateGraphic id sampleEnv (Array sampleEntries)) = Array after"
      "length after = length sampleEntries"
      "\<forall>i < length sampleEntries. icon (after ! i)
          = loadCharacterIcon sampleEnv (character (sampleEntries ! i))"
    by blast
  from after(3) have "icon (after ! 0) = loadCharacterIcon sampleEnv (character (sampleEntries ! 0))"
    by (simp add: sampleEntries_def)
  then have "icon (after ! 0) = Some 1"
    by (simp add: sampleEntries_def sampleEnv_def
      loadCharacterIcon_def cleanedIconBase_def isSpace_def sampleLoadImage_def)
  with after a show ?thesis by (auto simp: sampleEntries_def)
qed

end
